theory Spec2Isabelle
  imports Complex_Main "HOL-Library.Multiset" "HOL-Library.Log_Nat"
begin

section \<open>JavaScript numbers\<close>

text \<open>
  The trace processor computes with JavaScript numbers, the binary64 numbers of IEEE 754.
  A finite number is modelled as the real number it stands for, and every arithmetic
  operation gives the exact result rounded to 53 significant bits, to the nearest such
  number, and to the one with an even last bit when two are equally near.  The exponent
  \<open>expo x\<close> of a number is the \<open>e\<close> with \<open>2\<^sup>e \<le> \<bar>x\<bar> < 2\<^sup>e\<^sup>+\<^sup>1\<close>, that is
  \<open>\<lfloor>log\<^sub>2 \<bar>x\<bar>\<rfloor>\<close>, counted from the number of bits of \<open>\<lfloor>\<bar>x\<bar>\<rfloor>\<close>, or of \<open>\<lceil>1 / \<bar>x\<bar>\<rceil> - 1\<close>
  for a number below \<open>1\<close>; the numbers of that binade are the multiples of \<open>2\<^sup>e\<^sup>-\<^sup>5\<^sup>2\<close>.  The range of the exponent is not limited: no
  operation on finite numbers overflows to an infinity or underflows to zero, and the two
  zeros are not told apart.
\<close>

definition expo :: "real \<Rightarrow> int" where
  "expo x = (if 1 \<le> \<bar>x\<bar> then bitlen \<lfloor>\<bar>x\<bar>\<rfloor> - 1 else - bitlen (\<lceil>1 / \<bar>x\<bar>\<rceil> - 1))"

definition roundEven :: "real \<Rightarrow> int" where
  "roundEven y =
     (let f = \<lfloor>y\<rfloor> in
      if y - of_int f < 1 / 2 then f
      else if y - of_int f > 1 / 2 then f + 1
      else if even f then f else f + 1)"

definition rnd :: "real \<Rightarrow> real" where
  "rnd x = (if x = 0 then 0
            else of_int (roundEven (x / 2 powi (expo x - 52))) * 2 powi (expo x - 52))"

text \<open>The four operations on finite numbers.\<close>

definition fl_add :: "real \<Rightarrow> real \<Rightarrow> real" where
  "fl_add a b = rnd (a + b)"

definition fl_sub :: "real \<Rightarrow> real \<Rightarrow> real" where
  "fl_sub a b = rnd (a - b)"

definition fl_mul :: "real \<Rightarrow> real \<Rightarrow> real" where
  "fl_mul a b = rnd (a * b)"

definition fl_div :: "real \<Rightarrow> real \<Rightarrow> real" where
  "fl_div a b = rnd (a / b)"

text \<open>
  A number is a finite one or one of the three values of IEEE arithmetic that are not
  finite.  The operations below are the ones \<^verbatim>\<open>tracing-processor.js\<close> uses on numbers
  that may not be finite; each follows the IEEE rules for those values (a division of a
  finite number by zero gives an infinity, or \<open>NaN\<close> for \<open>0 / 0\<close>; every comparison with
  \<open>NaN\<close> is false).
\<close>

datatype jsnum = Fin real | NaN | PInf | NInf

fun isFinite :: "jsnum \<Rightarrow> bool" where
  "isFinite (Fin _) = True"
| "isFinite _ = False"

fun js_neg :: "jsnum \<Rightarrow> jsnum" where
  "js_neg (Fin a) = Fin (- a)"
| "js_neg NaN = NaN"
| "js_neg PInf = NInf"
| "js_neg NInf = PInf"

fun js_add :: "jsnum \<Rightarrow> jsnum \<Rightarrow> jsnum" where
  "js_add (Fin a) (Fin b) = Fin (fl_add a b)"
| "js_add NaN _ = NaN"
| "js_add _ NaN = NaN"
| "js_add PInf NInf = NaN"
| "js_add NInf PInf = NaN"
| "js_add PInf _ = PInf"
| "js_add _ PInf = PInf"
| "js_add NInf _ = NInf"
| "js_add _ NInf = NInf"

definition js_sub :: "jsnum \<Rightarrow> jsnum \<Rightarrow> jsnum" where
  "js_sub x y = js_add x (js_neg y)"

text \<open>Division; the zero divisors of this program are the integer \<open>+0\<close>.\<close>

fun js_div :: "jsnum \<Rightarrow> jsnum \<Rightarrow> jsnum" where
  "js_div (Fin a) (Fin b) =
     (if b = 0 then (if a > 0 then PInf else if a < 0 then NInf else NaN)
      else Fin (fl_div a b))"
| "js_div NaN _ = NaN"
| "js_div _ NaN = NaN"
| "js_div (Fin a) _ = Fin 0"
| "js_div PInf (Fin b) = (if b < 0 then NInf else PInf)"
| "js_div NInf (Fin b) = (if b < 0 then PInf else NInf)"
| "js_div _ _ = NaN"

fun js_le :: "jsnum \<Rightarrow> jsnum \<Rightarrow> bool" where
  "js_le (Fin a) (Fin b) = (a \<le> b)"
| "js_le NaN _ = False"
| "js_le _ NaN = False"
| "js_le NInf _ = True"
| "js_le _ PInf = True"
| "js_le _ _ = False"

text \<open>\<^verbatim>\<open>Math.max\<close> of two numbers: \<open>NaN\<close> when either is.\<close>

fun js_max :: "jsnum \<Rightarrow> jsnum \<Rightarrow> jsnum" where
  "js_max NaN _ = NaN"
| "js_max _ NaN = NaN"
| "js_max x y = (if js_le x y then y else x)"

section \<open>The responsiveness estimator\<close>

definition BASE_RESPONSE_LATENCY :: real where
  "BASE_RESPONSE_LATENCY = 16"

record RiskEntry =
  percentile :: real
  time :: jsnum

text \<open>
  The inner \<^verbatim>\<open>while\<close> loop of \<^verbatim>\<open>_riskPercentiles\<close>.  Its variables
  are the function's arguments, under the names the source gives them; the value is the
  variables at the exit of the loop, in the order
  \<open>(completedTime, duration, cdfTime, durationIndex, remainingCount, clippedLength)\<close>.
  The durations, the total time, the percentiles and the clipped length are finite
  numbers, and so are the times of the walk; \<open>remainingCount\<close> and \<open>durationIndex\<close> are
  small integers, which the arithmetic of the source keeps exact.
\<close>

type_synonym walk = "real \<times> real \<times> real \<times> int \<times> int \<times> real"

function riskWalk :: "real list \<Rightarrow> real \<Rightarrow> walk \<Rightarrow> walk" where
  "riskWalk durations percentileTime
      (completedTime, duration, cdfTime, durationIndex, remainingCount, clippedLength) =
     (if cdfTime < percentileTime \<and> durationIndex < int (length durations) - 1 then
        (let completedTime = fl_add completedTime duration;
             remainingCount = remainingCount - (if duration < 0 then - 1 else 1)
         in if clippedLength > 0 \<and> clippedLength < durations ! nat (durationIndex + 1) then
              (let duration = - clippedLength;
                   clippedLength = 0;
                   cdfTime = fl_add completedTime (fl_mul \<bar>duration\<bar> (real_of_int remainingCount))
               in riskWalk durations percentileTime
                    (completedTime, duration, cdfTime, durationIndex, remainingCount,
                     clippedLength))
            else
              (let durationIndex = durationIndex + 1;
                   duration = durations ! nat durationIndex;
                   cdfTime = fl_add completedTime (fl_mul \<bar>duration\<bar> (real_of_int remainingCount))
               in riskWalk durations percentileTime
                    (completedTime, duration, cdfTime, durationIndex, remainingCount,
                     clippedLength)))
      else (completedTime, duration, cdfTime, durationIndex, remainingCount, clippedLength))"
  by pat_completeness auto
termination
  by (relation "measure (\<lambda>(durations, percentileTime, completedTime, duration, cdfTime,
        durationIndex, remainingCount, clippedLength).
        nat (2 * (int (length durations) - 1 - durationIndex))
          + (if clippedLength > 0 then 1 else 0))")
    (auto simp: Let_def)

declare riskWalk.simps [simp del]

text \<open>The entry pushed for one percentile, from the variables after the walk.\<close>

definition riskTime :: "real \<Rightarrow> walk \<Rightarrow> jsnum" where
  "riskTime percentileTime w =
     (case w of (completedTime, duration, cdfTime, durationIndex, remainingCount, clippedLength) \<Rightarrow>
        js_add (js_max (Fin 0)
                  (js_div (Fin (fl_sub percentileTime completedTime))
                          (Fin (real_of_int remainingCount))))
               (Fin BASE_RESPONSE_LATENCY))"

text \<open>The outer \<^verbatim>\<open>for (const percentile of percentiles)\<close> loop.\<close>

fun riskLoop :: "real list \<Rightarrow> real \<Rightarrow> walk \<Rightarrow> real list \<Rightarrow> RiskEntry list" where
  "riskLoop durations totalTime w [] = []"
| "riskLoop durations totalTime w (p # percentiles) =
     (let percentileTime = fl_mul p totalTime;
          w' = riskWalk durations percentileTime w
      in \<lparr>percentile = p, time = riskTime percentileTime w'\<rparr>
           # riskLoop durations totalTime w' percentiles)"

definition riskInit :: "real list \<Rightarrow> real \<Rightarrow> real \<Rightarrow> walk" where
  "riskInit durations totalTime clippedLength =
     (let busyTime = fl_sub (foldl fl_add 0 durations) clippedLength;
          completedTime = fl_sub totalTime busyTime;
          duration = 0;
          cdfTime = completedTime;
          durationIndex = - 1;
          remainingCount = int (length durations) + 1
            - (if clippedLength > 0 then 1 else 0)
      in (completedTime, duration, cdfTime, durationIndex, remainingCount, clippedLength))"

definition riskPercentiles :: "real list \<Rightarrow> real \<Rightarrow> real list \<Rightarrow> real \<Rightarrow> RiskEntry list" where
  "riskPercentiles durations totalTime percentiles clippedLength =
     riskLoop durations totalTime (riskInit durations totalTime clippedLength) percentiles"


text \<open>
  A \<^verbatim>\<open>ToplevelEvent\<close> \<^verbatim>\<open>{start, end, duration}\<close>.  The fields carry the prefix
  \<open>ev\<close>: \<open>end\<close> is a keyword, and \<open>duration\<close> is a field of the task nodes below.
\<close>

record ToplevelEvent =
  evStart :: real
  evEnd :: real
  evDuration :: real

text \<open>
  One iteration of the loop of \<^verbatim>\<open>getMainThreadTopLevelEventDurations\<close>, on the pair
  \<open>(durations, clippedLength)\<close>.  The window bounds are finite here: the function is
  called from \<^verbatim>\<open>getRiskToResponsiveness\<close> with both bounds given.
\<close>

definition durationsStep :: "real \<Rightarrow> real \<Rightarrow> real list \<times> real \<Rightarrow> ToplevelEvent \<Rightarrow> real list \<times> real"
  where
  "durationsStep startTime endTime acc evt =
     (case acc of (durations, clippedLength) \<Rightarrow>
        if evEnd evt < startTime \<or> evStart evt > endTime then (durations, clippedLength)
        else
          (let duration = evDuration evt;
               eventStart = evStart evt;
               (eventStart, duration) =
                 (if eventStart < startTime then (startTime, fl_sub (evEnd evt) startTime)
                  else (eventStart, duration));
               clippedLength =
                 (if evEnd evt > endTime then fl_sub duration (fl_sub endTime eventStart)
                  else clippedLength)
           in (durations @ [duration], clippedLength)))"

definition getMainThreadTopLevelEventDurations ::
    "ToplevelEvent list \<Rightarrow> real \<Rightarrow> real \<Rightarrow> real list \<times> real" where
  "getMainThreadTopLevelEventDurations topLevelEvents startTime endTime =
     (case foldl (durationsStep startTime endTime) ([], 0) topLevelEvents of
        (durations, clippedLength) \<Rightarrow> (sort durations, clippedLength))"

definition defaultPercentiles :: "real list" where
  "defaultPercentiles = [0.5, 0.75, 0.9, 0.99, 1]"

text \<open>
  \<^verbatim>\<open>getRiskToResponsiveness\<close> sorts the array it is given in place.  The model returns
  the array as the call leaves it, and the result.  A call without the fourth argument is
  a call with \<open>defaultPercentiles\<close>.
\<close>

definition getRiskToResponsiveness ::
    "ToplevelEvent list \<Rightarrow> real \<Rightarrow> real \<Rightarrow> real list \<Rightarrow> real list \<times> RiskEntry list" where
  "getRiskToResponsiveness events startTime endTime percentiles =
     (let totalTime = fl_sub endTime startTime;
          percentiles = sort percentiles;
          ret = getMainThreadTopLevelEventDurations events startTime endTime
      in (percentiles, riskPercentiles (fst ret) totalTime percentiles (snd ret)))"

section \<open>Trace events\<close>

datatype error =
    FatalTraceLogicError
  | InvalidTaskTimingData
  | NoTopLevelEvents
  | NO_TRACING_STARTED
  | TypeError

text \<open>
  A frame descriptor of a \<^verbatim>\<open>TracingStartedInBrowser\<close> event; \<open>frameParent\<close> is its
  \<^verbatim>\<open>parent\<close> field.  Of a frame of a call stack only the \<^verbatim>\<open>url\<close> is read, so a
  call stack is the list of the frames' urls.
\<close>

record Frame =
  frame :: "string option"
  frameParent :: "string option"
  processId :: "nat option"

record ArgsData =
  url :: "string option"
  stackTrace :: "string option list option"
  frames :: "Frame list option"
  page :: "string option"

record Args =
  data :: "ArgsData option"
  argsName :: "string option"

record TraceEvent =
  name :: string
  ph :: string
  ts :: real
  dur :: "real option"
  pid :: nat
  tid :: nat
  cat :: string
  args :: Args

definition SCHEDULABLE_TASK_TITLE :: string where
  "SCHEDULABLE_TASK_TITLE = ''TaskQueueManager::ProcessTaskFromWorkQueue''"

definition SCHEDULABLE_TASK_TITLE_ALT :: string where
  "SCHEDULABLE_TASK_TITLE_ALT = ''ThreadControllerImpl::DoWork''"

definition isScheduleableTask :: "TraceEvent \<Rightarrow> bool" where
  "isScheduleableTask evt \<longleftrightarrow>
     name evt = SCHEDULABLE_TASK_TITLE \<or> name evt = SCHEDULABLE_TASK_TITLE_ALT"

fun js_lt :: "jsnum \<Rightarrow> jsnum \<Rightarrow> bool" where
  "js_lt (Fin a) (Fin b) = (a < b)"
| "js_lt NaN _ = False"
| "js_lt _ NaN = False"
| "js_lt PInf _ = False"
| "js_lt _ NInf = False"
| "js_lt _ _ = True"

record TraceOfTab =
  mainThreadEvents :: "TraceEvent list"
  navigationStartEvt :: TraceEvent

text \<open>
  The test \<^verbatim>\<open>!event.dur\<close>: the duration is missing or zero.
\<close>

definition noDur :: "TraceEvent \<Rightarrow> bool" where
  "noDur evt \<longleftrightarrow> (case dur evt of None \<Rightarrow> True | Some d \<Rightarrow> d = 0)"

text \<open>
  The loop of \<^verbatim>\<open>getMainThreadTopLevelEvents\<close>.  A bound that the caller leaves out is
  \<open>None\<close>; the defaults are \<open>0\<close> and \<open>Infinity\<close>.  The locals \<open>startMs\<close> and
  \<open>endMs\<close> are the source's \<^verbatim>\<open>start\<close> and \<^verbatim>\<open>end\<close>; \<open>the (dur evt)\<close> is read
  only where the duration is present.
\<close>

fun topLevelLoop :: "TraceEvent \<Rightarrow> jsnum \<Rightarrow> jsnum \<Rightarrow> TraceEvent list \<Rightarrow> ToplevelEvent list" where
  "topLevelLoop nav startTime endTime [] = []"
| "topLevelLoop nav startTime endTime (evt # evts) =
     (if \<not> isScheduleableTask evt \<or> noDur evt then topLevelLoop nav startTime endTime evts
      else
        (let startMs = fl_div (fl_sub (ts evt) (ts nav)) 1000;
             endMs = fl_div (fl_sub (fl_add (ts evt) (the (dur evt))) (ts nav)) 1000
         in if js_lt endTime (Fin startMs) \<or> js_lt (Fin endMs) startTime
            then topLevelLoop nav startTime endTime evts
            else \<lparr>evStart = startMs, evEnd = endMs, evDuration = fl_div (the (dur evt)) 1000\<rparr>
                   # topLevelLoop nav startTime endTime evts))"

definition getMainThreadTopLevelEvents ::
    "TraceOfTab \<Rightarrow> jsnum option \<Rightarrow> jsnum option \<Rightarrow> error + ToplevelEvent list" where
  "getMainThreadTopLevelEvents tabTrace startTime endTime =
     (let startTime = (case startTime of None \<Rightarrow> Fin 0 | Some t \<Rightarrow> t);
          endTime = (case endTime of None \<Rightarrow> PInf | Some t \<Rightarrow> t);
          topLevelEvents =
            topLevelLoop (navigationStartEvt tabTrace) startTime endTime (mainThreadEvents tabTrace)
      in if topLevelEvents = [] then Inl NoTopLevelEvents else Inr topLevelEvents)"


section \<open>Finding the renderer thread\<close>

text \<open>The test \<^verbatim>\<open>!frame.parent\<close>: the string is missing or empty.\<close>

definition falsy :: "string option \<Rightarrow> bool" where
  "falsy x \<longleftrightarrow> (case x of None \<Rightarrow> True | Some s \<Rightarrow> s = [])"

definition findTracingStartedEvt :: "TraceEvent list \<Rightarrow> error + TraceEvent \<times> string option" where
  "findTracingStartedEvt events =
     (let startedInBrowserEvt = find (\<lambda>e. name e = ''TracingStartedInBrowser'') events;
          startedInPageEvt =
            (case startedInBrowserEvt of
               None \<Rightarrow> None
             | Some browserEvt \<Rightarrow>
                 (case data (args browserEvt) of
                    None \<Rightarrow> None
                  | Some d \<Rightarrow>
                      (case frames d of
                         None \<Rightarrow> None
                       | Some fs \<Rightarrow>
                           (case find (\<lambda>f. falsy (frameParent f)) fs of
                              None \<Rightarrow> None
                            | Some mainFrame \<Rightarrow>
                                (case find (\<lambda>e. Some (pid e) = processId mainFrame \<and> ph e = ''M'' \<and>
                                          cat e = ''__metadata'' \<and> name e = ''thread_name'' \<and>
                                          argsName (args e) = Some ''CrRendererMain'') events of
                                   None \<Rightarrow> None
                                 | Some threadNameEvt \<Rightarrow>
                                     Some (browserEvt\<lparr>pid := the (processId mainFrame),
                                        tid := tid threadNameEvt,
                                        name := ''TracingStartedInPage'',
                                        args := \<lparr>data = Some \<lparr>url = None, stackTrace = None,
                                                   frames = None, page = frame mainFrame\<rparr>,
                                                 argsName = None\<rparr>\<rparr>))))));
          startedInPageEvt =
            (case startedInPageEvt of
               None \<Rightarrow> find (\<lambda>e. name e = ''TracingStartedInPage'') events
             | Some e \<Rightarrow> Some e)
      in case startedInPageEvt of
           None \<Rightarrow> Inl NO_TRACING_STARTED
         | Some e \<Rightarrow>
             (case data (args e) of
                None \<Rightarrow> Inl TypeError
              | Some d \<Rightarrow> Inr (e, page d)))"

section \<open>Task nodes and the reconstruction of the task tree\<close>

text \<open>
  Task nodes are mutable objects that refer to each other: a node holds its parent and its
  children, the flat list \<^verbatim>\<open>tasks\<close> holds every node, and an End event writes the
  \<^verbatim>\<open>endTime\<close> of a node that its parent and the list both reach.  Every node is pushed
  on \<^verbatim>\<open>tasks\<close> right after it is created and the list is never changed otherwise, so a
  node is named by its index in \<^verbatim>\<open>tasks\<close>: the list is the store, \<open>parent\<close> is an
  index or \<open>None\<close>, and \<open>children\<close> is a list of indices.

  The task groups and the table \<^verbatim>\<open>taskNameToGroup\<close> belong to the module
  \<^verbatim>\<open>task-groups\<close>; the type \<open>'g\<close> of groups, the group \<^verbatim>\<open>taskGroups.Other\<close> and
  the table are parameters.
\<close>

record 'g TaskNode =
  event :: TraceEvent
  startTime :: jsnum
  endTime :: jsnum
  parent :: "nat option"
  children :: "nat list"
  group :: 'g
  attributableURL :: "string option"
  duration :: jsnum
  selfTime :: jsnum

text \<open>
  \<^verbatim>\<open>_createNewTaskNode\<close>, together with the \<^verbatim>\<open>tasks.push\<close> that follows each of its
  calls: the new node is at index \<open>length tasks\<close>.  \<^verbatim>\<open>Number(event.dur || 0)\<close> is the
  duration, or zero when it is missing.
\<close>

definition createNewTaskNode ::
    "'g \<Rightarrow> TraceEvent \<Rightarrow> nat option \<Rightarrow> 'g TaskNode list \<Rightarrow> 'g TaskNode list" where
  "createNewTaskNode other evt parentTask tasks =
     (let newTask =
            \<lparr>event = evt,
             startTime = Fin (ts evt),
             endTime = (if ph evt = ''X''
                        then Fin (fl_add (ts evt) (case dur evt of None \<Rightarrow> 0 | Some d \<Rightarrow> d))
                        else NaN),
             parent = parentTask,
             children = [],
             group = other,
             attributableURL = None,
             duration = NaN,
             selfTime = NaN\<rparr>;
          tasks =
            (case parentTask of
               None \<Rightarrow> tasks
             | Some p \<Rightarrow> tasks[p := (tasks ! p)\<lparr>children := children (tasks ! p) @ [length tasks]\<rparr>])
      in tasks @ [newTask])"

text \<open>
  The \<^verbatim>\<open>while\<close> loop that leaves the tasks that have ended.  It follows parent
  references, so it is a partial function: \<open>None\<close> is a loop that does not end.
\<close>

partial_function (option) ascend :: "'g TaskNode list \<Rightarrow> real \<Rightarrow> nat option \<Rightarrow> nat option option"
  where
  "ascend tasks eventTs currentTask =
     (case currentTask of
        None \<Rightarrow> Some None
      | Some c \<Rightarrow>
          if isFinite (endTime (tasks ! c)) \<and> js_le (endTime (tasks ! c)) (Fin eventTs)
          then ascend tasks eventTs (parent (tasks ! c))
          else Some (Some c))"

declare ascend.simps [code]

text \<open>
  The body of the \<^verbatim>\<open>for\<close> loop of \<^verbatim>\<open>_createTasksFromEvents\<close>, on the pair
  \<open>(tasks, currentTask)\<close>.  \<open>Inl\<close> is a thrown error.
\<close>

definition taskStep ::
    "'g \<Rightarrow> TraceEvent \<Rightarrow> 'g TaskNode list \<times> nat option \<Rightarrow> TraceEvent
      \<Rightarrow> (error + 'g TaskNode list \<times> nat option) option" where
  "taskStep other startedInPageEvt st evt =
     (case st of (tasks, currentTask) \<Rightarrow>
        if pid evt \<noteq> pid startedInPageEvt \<or> tid evt \<noteq> tid startedInPageEvt
        then Some (Inr (tasks, currentTask))
        else if ph evt \<noteq> ''X'' \<and> ph evt \<noteq> ''B'' \<and> ph evt \<noteq> ''E''
        then Some (Inr (tasks, currentTask))
        else
          (case ascend tasks (ts evt) currentTask of
             None \<Rightarrow> None
           | Some None \<Rightarrow>
               if ph evt = ''E'' then Some (Inl FatalTraceLogicError)
               else Some (Inr (createNewTaskNode other evt None tasks, Some (length tasks)))
           | Some (Some c) \<Rightarrow>
               if ph evt = ''X'' \<or> ph evt = ''B''
               then Some (Inr (createNewTaskNode other evt (Some c) tasks, Some (length tasks)))
               else if ph (event (tasks ! c)) \<noteq> ''B'' then Some (Inl FatalTraceLogicError)
               else Some (Inr (tasks[c := (tasks ! c)\<lparr>endTime := Fin (ts evt)\<rparr>],
                               parent (tasks ! c)))))"

fun taskLoop ::
    "'g \<Rightarrow> TraceEvent \<Rightarrow> 'g TaskNode list \<times> nat option \<Rightarrow> TraceEvent list
      \<Rightarrow> (error + 'g TaskNode list \<times> nat option) option" where
  "taskLoop other startedInPageEvt st [] = Some (Inr st)"
| "taskLoop other startedInPageEvt st (evt # evts) =
     (case taskStep other startedInPageEvt st evt of
        None \<Rightarrow> None
      | Some (Inl e) \<Rightarrow> Some (Inl e)
      | Some (Inr st') \<Rightarrow> taskLoop other startedInPageEvt st' evts)"

definition createTasksFromEvents ::
    "'g \<Rightarrow> TraceEvent list \<Rightarrow> (error + 'g TaskNode list) option" where
  "createTasksFromEvents other traceEvents =
     (case findTracingStartedEvt traceEvents of
        Inl e \<Rightarrow> Some (Inl e)
      | Inr (startedInPageEvt, frameId) \<Rightarrow>
          (case taskLoop other startedInPageEvt ([], None) traceEvents of
             None \<Rightarrow> None
           | Some (Inl e) \<Rightarrow> Some (Inl e)
           | Some (Inr (tasks, currentTask)) \<Rightarrow> Some (Inr tasks)))"


section \<open>The metrics passes\<close>

text \<open>
  The three passes recurse through the \<^verbatim>\<open>children\<close> references, so the model of each
  takes fuel, the depth of recursion it may use: \<open>None\<close> is a pass that ran out of it.
  A pass changes the nodes in place and the model returns the list of nodes after it.

  \<^verbatim>\<open>_computeRecursiveSelfTime\<close> returns the node's duration; \<open>selfTimeChildren\<close> is the
  \<^verbatim>\<open>task.children.map(...)\<close> of its first statement, and the \<^verbatim>\<open>reduce\<close> that follows
  it adds the durations up from \<open>0\<close>, left to right.
\<close>

fun computeRecursiveSelfTime ::
    "nat \<Rightarrow> 'g TaskNode list \<Rightarrow> nat \<Rightarrow> ('g TaskNode list \<times> jsnum) option"
  and selfTimeChildren ::
    "nat \<Rightarrow> 'g TaskNode list \<Rightarrow> nat list \<Rightarrow> ('g TaskNode list \<times> jsnum list) option"
  where
  "computeRecursiveSelfTime 0 tasks task = None"
| "computeRecursiveSelfTime (Suc fuel) tasks task =
     (case selfTimeChildren fuel tasks (children (tasks ! task)) of
        None \<Rightarrow> None
      | Some (tasks, childTimes) \<Rightarrow>
          (let childTime = foldl js_add (Fin 0) childTimes;
               d = js_sub (endTime (tasks ! task)) (startTime (tasks ! task));
               tasks = tasks[task := (tasks ! task)\<lparr>duration := d\<rparr>];
               tasks = tasks[task := (tasks ! task)
                          \<lparr>selfTime := js_sub (duration (tasks ! task)) childTime\<rparr>]
           in Some (tasks, duration (tasks ! task))))"
| "selfTimeChildren fuel tasks [] = Some (tasks, [])"
| "selfTimeChildren fuel tasks (child # rest) =
     (case computeRecursiveSelfTime fuel tasks child of
        None \<Rightarrow> None
      | Some (tasks, d) \<Rightarrow>
          (case selfTimeChildren fuel tasks rest of
             None \<Rightarrow> None
           | Some (tasks, ds) \<Rightarrow> Some (tasks, d # ds)))"

text \<open>
  The operator \<^verbatim>\<open>||\<close> on optional strings: the left operand when it is truthy (a string
  that is not empty), the right operand otherwise.
\<close>

definition js_or :: "string option \<Rightarrow> string option \<Rightarrow> string option" where
  "js_or a b = (if falsy a then b else a)"

text \<open>The first three statements of \<^verbatim>\<open>_computeRecursiveAttributableURL\<close>.\<close>

definition taskURL :: "TraceEvent \<Rightarrow> string option" where
  "taskURL evt =
     (let argsData = (case data (args evt) of
                        None \<Rightarrow> \<lparr>url = None, stackTrace = None, frames = None, page = None\<rparr>
                      | Some d \<Rightarrow> d);
          stackFrames = (case stackTrace argsData of None \<Rightarrow> [None] | Some fs \<Rightarrow> fs)
      in js_or (url argsData) (case stackFrames of [] \<Rightarrow> None | f # _ \<Rightarrow> f))"

text \<open>
  The callback of \<^verbatim>\<open>forEach\<close> reads \<^verbatim>\<open>task.attributableURL\<close> at each call, so the loop
  over the children takes the node and not the value.
\<close>

fun computeRecursiveAttributableURL ::
    "nat \<Rightarrow> 'g TaskNode list \<Rightarrow> nat \<Rightarrow> string option \<Rightarrow> 'g TaskNode list option"
  and attributableURLChildren ::
    "nat \<Rightarrow> 'g TaskNode list \<Rightarrow> nat \<Rightarrow> nat list \<Rightarrow> 'g TaskNode list option"
  where
  "computeRecursiveAttributableURL 0 tasks task parentURL = None"
| "computeRecursiveAttributableURL (Suc fuel) tasks task parentURL =
     (let tasks = tasks[task := (tasks ! task)
                    \<lparr>attributableURL := js_or parentURL (taskURL (event (tasks ! task)))\<rparr>]
      in attributableURLChildren fuel tasks task (children (tasks ! task)))"
| "attributableURLChildren fuel tasks task [] = Some tasks"
| "attributableURLChildren fuel tasks task (child # rest) =
     (case computeRecursiveAttributableURL fuel tasks child (attributableURL (tasks ! task)) of
        None \<Rightarrow> None
      | Some tasks \<Rightarrow> attributableURLChildren fuel tasks task rest)"

text \<open>
  \<^verbatim>\<open>_computeRecursiveTaskGroup\<close>.  A group is an object, so \<^verbatim>\<open>||\<close> takes the first
  operand that is there.
\<close>

fun computeRecursiveTaskGroup ::
    "nat \<Rightarrow> (string \<Rightarrow> 'g option) \<Rightarrow> 'g \<Rightarrow> 'g TaskNode list \<Rightarrow> nat \<Rightarrow> 'g option
      \<Rightarrow> 'g TaskNode list option"
  and taskGroupChildren ::
    "nat \<Rightarrow> (string \<Rightarrow> 'g option) \<Rightarrow> 'g \<Rightarrow> 'g TaskNode list \<Rightarrow> nat \<Rightarrow> nat list
      \<Rightarrow> 'g TaskNode list option"
  where
  "computeRecursiveTaskGroup 0 taskNameToGroup other tasks task parentGroup = None"
| "computeRecursiveTaskGroup (Suc fuel) taskNameToGroup other tasks task parentGroup =
     (let g = taskNameToGroup (name (event (tasks ! task)));
          tasks = tasks[task := (tasks ! task)
                    \<lparr>group := (case g of
                                 Some x \<Rightarrow> x
                               | None \<Rightarrow> (case parentGroup of Some x \<Rightarrow> x | None \<Rightarrow> other))\<rparr>]
      in taskGroupChildren fuel taskNameToGroup other tasks task (children (tasks ! task)))"
| "taskGroupChildren fuel taskNameToGroup other tasks task [] = Some tasks"
| "taskGroupChildren fuel taskNameToGroup other tasks task (child # rest) =
     (case computeRecursiveTaskGroup fuel taskNameToGroup other tasks child
             (Some (group (tasks ! task))) of
        None \<Rightarrow> None
      | Some tasks \<Rightarrow> taskGroupChildren fuel taskNameToGroup other tasks task rest)"

text \<open>
  The first loop of \<^verbatim>\<open>getMainThreadTasks\<close>, over the indices of \<^verbatim>\<open>tasks\<close>: the three
  passes on every node that has no parent.
\<close>

fun metricsLoop ::
    "nat \<Rightarrow> (string \<Rightarrow> 'g option) \<Rightarrow> 'g \<Rightarrow> 'g TaskNode list \<Rightarrow> nat list \<Rightarrow> 'g TaskNode list option"
  where
  "metricsLoop fuel taskNameToGroup other tasks [] = Some tasks"
| "metricsLoop fuel taskNameToGroup other tasks (task # rest) =
     (if parent (tasks ! task) \<noteq> None then metricsLoop fuel taskNameToGroup other tasks rest
      else
        (case computeRecursiveSelfTime fuel tasks task of
           None \<Rightarrow> None
         | Some (tasks, d) \<Rightarrow>
             (case computeRecursiveAttributableURL fuel tasks task None of
                None \<Rightarrow> None
              | Some tasks \<Rightarrow>
                  (case computeRecursiveTaskGroup fuel taskNameToGroup other tasks task None of
                     None \<Rightarrow> None
                   | Some tasks \<Rightarrow> metricsLoop fuel taskNameToGroup other tasks rest))))"

text \<open>
  The second loop of \<^verbatim>\<open>getMainThreadTasks\<close>: each node is rescaled, then checked.  An
  iteration touches its own node only, so the loop is a recursion on the list of nodes.
\<close>

definition rescaleTask :: "jsnum \<Rightarrow> 'g TaskNode \<Rightarrow> 'g TaskNode" where
  "rescaleTask firstTs task =
     task\<lparr>startTime := js_div (js_sub (startTime task) firstTs) (Fin 1000),
          endTime := js_div (js_sub (endTime task) firstTs) (Fin 1000),
          duration := js_div (duration task) (Fin 1000),
          selfTime := js_div (selfTime task) (Fin 1000)\<rparr>"

fun rescaleLoop :: "jsnum \<Rightarrow> 'g TaskNode list \<Rightarrow> error + 'g TaskNode list" where
  "rescaleLoop firstTs [] = Inr []"
| "rescaleLoop firstTs (task # rest) =
     (let task = rescaleTask firstTs task
      in if \<not> isFinite (selfTime task) then Inl InvalidTaskTimingData
         else (case rescaleLoop firstTs rest of
                 Inl e \<Rightarrow> Inl e
               | Inr rest \<Rightarrow> Inr (task # rest)))"

definition firstTs :: "'g TaskNode list \<Rightarrow> jsnum" where
  "firstTs tasks = (case tasks of [] \<Rightarrow> Fin 0 | task # _ \<Rightarrow> startTime task)"

definition getMainThreadTasks ::
    "nat \<Rightarrow> (string \<Rightarrow> 'g option) \<Rightarrow> 'g \<Rightarrow> TraceEvent list \<Rightarrow> (error + 'g TaskNode list) option"
  where
  "getMainThreadTasks fuel taskNameToGroup other traceEvents =
     (case createTasksFromEvents other traceEvents of
        None \<Rightarrow> None
      | Some (Inl e) \<Rightarrow> Some (Inl e)
      | Some (Inr tasks) \<Rightarrow>
          (case metricsLoop fuel taskNameToGroup other tasks [0..<length tasks] of
             None \<Rightarrow> None
           | Some tasks \<Rightarrow> Some (rescaleLoop (firstTs tasks) tasks)))"

section \<open>Notions of the specification\<close>

text \<open>
  The specification's account of \<^verbatim>\<open>getMainThreadTopLevelEvents\<close>: the record made of an
  event, the test that the interval \<open>[start, end]\<close> of an event overlaps the inclusive
  window \<open>[w0, w1]\<close>, and the events the function is to report.
\<close>

definition toplevelOf :: "TraceEvent \<Rightarrow> TraceEvent \<Rightarrow> ToplevelEvent" where
  "toplevelOf nav evt =
     \<lparr>evStart = fl_div (fl_sub (ts evt) (ts nav)) 1000,
      evEnd = fl_div (fl_sub (fl_add (ts evt) (the (dur evt))) (ts nav)) 1000,
      evDuration = fl_div (the (dur evt)) 1000\<rparr>"

definition inWindow :: "TraceEvent \<Rightarrow> jsnum \<Rightarrow> jsnum \<Rightarrow> TraceEvent \<Rightarrow> bool" where
  "inWindow nav w0 w1 evt \<longleftrightarrow>
     js_le (Fin (fl_div (fl_sub (ts evt) (ts nav)) 1000)) w1 \<and>
     js_le w0 (Fin (fl_div (fl_sub (fl_add (ts evt) (the (dur evt))) (ts nav)) 1000))"

definition macrotasksInWindow ::
    "TraceOfTab \<Rightarrow> jsnum option \<Rightarrow> jsnum option \<Rightarrow> TraceEvent list" where
  "macrotasksInWindow tabTrace w0 w1 =
     filter (\<lambda>e. (name e = ''TaskQueueManager::ProcessTaskFromWorkQueue'' \<or>
                  name e = ''ThreadControllerImpl::DoWork'') \<and>
                 dur e \<noteq> None \<and> dur e \<noteq> Some 0 \<and>
                 inWindow (navigationStartEvt tabTrace)
                   (case w0 of None \<Rightarrow> Fin 0 | Some t \<Rightarrow> t)
                   (case w1 of None \<Rightarrow> PInf | Some t \<Rightarrow> t) e)
       (mainThreadEvents tabTrace)"

section \<open>Example traces\<close>

text \<open>An event of process 1, thread 1, with no argument data.\<close>

definition traceEvent :: "string \<Rightarrow> string \<Rightarrow> real \<Rightarrow> real option \<Rightarrow> TraceEvent" where
  "traceEvent n p t d =
     \<lparr>name = n, ph = p, ts = t, dur = d, pid = 1, tid = 1, cat = [],
      args = \<lparr>data = Some \<lparr>url = None, stackTrace = None, frames = None, page = None\<rparr>,
              argsName = None\<rparr>\<rparr>"

definition exStarted :: TraceEvent where
  "exStarted = traceEvent ''TracingStartedInPage'' ''I'' 0 None"

definition exTab :: TraceOfTab where
  "exTab = \<lparr>mainThreadEvents =
      [traceEvent ''ThreadControllerImpl::DoWork'' ''X'' 1000 (Some 2000),
       traceEvent ''Paint'' ''X'' 1500 (Some 100),
       traceEvent ''TaskQueueManager::ProcessTaskFromWorkQueue'' ''X'' 5000 (Some 1000)],
     navigationStartEvt = traceEvent ''navigationStart'' ''R'' 0 None\<rparr>"

text \<open>A Begin event followed by an End event of another name.\<close>

definition exBeginEnd :: "TraceEvent list" where
  "exBeginEnd = [exStarted, traceEvent ''a'' ''B'' 10 None, traceEvent ''b'' ''E'' 20 None]"

text \<open>A Complete event, and a second one that starts inside it and ends after it.\<close>

definition exOverrun :: "TraceEvent list" where
  "exOverrun =
     [exStarted, traceEvent ''a'' ''X'' 0 (Some 10), traceEvent ''b'' ''X'' 5 (Some 10)]"

text \<open>A single Complete event, and its task as each stage of \<^verbatim>\<open>getMainThreadTasks\<close> leaves it.\<close>

definition exSingle :: "TraceEvent list" where
  "exSingle = [exStarted, traceEvent ''a'' ''X'' 3000 (Some 2000)]"

definition exSingleRaw :: "unit TaskNode list" where
  "exSingleRaw = [\<lparr>event = traceEvent ''a'' ''X'' 3000 (Some 2000), startTime = Fin 3000,
      endTime = Fin 5000, parent = None, children = [], group = (), attributableURL = None,
      duration = NaN, selfTime = NaN\<rparr>]"

definition exSingleMetrics :: "unit TaskNode list" where
  "exSingleMetrics = [\<lparr>event = traceEvent ''a'' ''X'' 3000 (Some 2000), startTime = Fin 3000,
      endTime = Fin 5000, parent = None, children = [], group = (), attributableURL = None,
      duration = Fin 2000, selfTime = Fin 2000\<rparr>]"

definition exSingleResult :: "unit TaskNode list" where
  "exSingleResult = [\<lparr>event = traceEvent ''a'' ''X'' 3000 (Some 2000), startTime = Fin 0,
      endTime = Fin 2, parent = None, children = [], group = (), attributableURL = None,
      duration = Fin 2, selfTime = Fin 2\<rparr>]"

section \<open>Invariants of the reconstruction\<close>

text \<open>
  The references between the nodes are consistent, and a child is created after its
  parent: every child of a node is a later node of the list whose parent is that node,
  and the parent of a node is an earlier node that has it among its children.
\<close>

definition wfTasks :: "'g TaskNode list \<Rightarrow> bool" where
  "wfTasks tasks \<longleftrightarrow>
     (\<forall>i<length tasks. \<forall>c\<in>set (children (tasks ! i)).
        i < c \<and> c < length tasks \<and> parent (tasks ! c) = Some i) \<and>
     (\<forall>c<length tasks. \<forall>p. parent (tasks ! c) = Some p \<longrightarrow>
        p < c \<and> c \<in> set (children (tasks ! p)))"

text \<open>The state of the scan: the nodes are consistent and the current task is one of them.\<close>

definition scanInv :: "'g TaskNode list \<times> nat option \<Rightarrow> bool" where
  "scanInv st \<longleftrightarrow> wfTasks (fst st) \<and> (\<forall>c. snd st = Some c \<longrightarrow> c < length (fst st))"

section \<open>Notions for the metrics passes\<close>

text \<open>
  The descendants of a node; the agreement of two lists of nodes on a field (or a tuple of
  fields) of every node; the fields that the passes never write; and the values that the
  self-time pass is to write, read from a list \<open>ref\<close> with the same tree.
\<close>

inductive_set descendants :: "'g TaskNode list \<Rightarrow> nat \<Rightarrow> nat set"
  for tasks :: "'g TaskNode list" and i :: nat where
  self: "i \<in> descendants tasks i"
| child: "j \<in> descendants tasks i \<Longrightarrow> c \<in> set (children (tasks ! j)) \<Longrightarrow>
          c \<in> descendants tasks i"

definition agree :: "('g TaskNode \<Rightarrow> 'a) \<Rightarrow> 'g TaskNode list \<Rightarrow> 'g TaskNode list \<Rightarrow> bool" where
  "agree f t t' \<longleftrightarrow> length t' = length t \<and> (\<forall>j<length t. f (t' ! j) = f (t ! j))"

definition treeOf ::
    "'g TaskNode \<Rightarrow> TraceEvent \<times> jsnum \<times> jsnum \<times> nat option \<times> nat list" where
  "treeOf n = (event n, startTime n, endTime n, parent n, children n)"

definition timesOf :: "'g TaskNode \<Rightarrow> jsnum \<times> jsnum" where
  "timesOf n = (duration n, selfTime n)"

definition spanOf :: "'g TaskNode list \<Rightarrow> nat \<Rightarrow> jsnum" where
  "spanOf t j = js_sub (endTime (t ! j)) (startTime (t ! j))"

definition childSpans :: "'g TaskNode list \<Rightarrow> nat \<Rightarrow> jsnum" where
  "childSpans t j = foldl js_add (Fin 0) (map (spanOf t) (children (t ! j)))"

definition timed :: "'g TaskNode list \<Rightarrow> 'g TaskNode list \<Rightarrow> nat \<Rightarrow> bool" where
  "timed ref t j \<longleftrightarrow>
     duration (t ! j) = spanOf ref j \<and>
     selfTime (t ! j) = js_sub (spanOf ref j) (childSpans ref j)"

text \<open>
  The URL of a node is resolved when it is the URL of its parent, if that is truthy, and
  the URL of its own event otherwise; a root has no parent URL.
\<close>

definition urlResolved :: "'g TaskNode list \<Rightarrow> nat \<Rightarrow> bool" where
  "urlResolved t j \<longleftrightarrow>
     attributableURL (t ! j) =
       js_or (case parent (t ! j) of None \<Rightarrow> None | Some p \<Rightarrow> attributableURL (t ! p))
             (taskURL (event (t ! j)))"

text \<open>
  The group of a node is resolved when it is the group that the table gives for the name
  of its event, or else the group of its parent, or else, for a root, the group \<open>other\<close>.
\<close>

definition groupResolved :: "(string \<Rightarrow> 'g option) \<Rightarrow> 'g \<Rightarrow> 'g TaskNode list \<Rightarrow> nat \<Rightarrow> bool" where
  "groupResolved tbl other t j \<longleftrightarrow>
     group (t ! j) =
       (case tbl (name (event (t ! j))) of
          Some x \<Rightarrow> x
        | None \<Rightarrow> (case parent (t ! j) of None \<Rightarrow> other | Some p \<Rightarrow> group (t ! p)))"

text \<open>A node is resolved when the three passes have left their values in it.\<close>

definition resolved :: "(string \<Rightarrow> 'g option) \<Rightarrow> 'g \<Rightarrow> 'g TaskNode list \<Rightarrow> 'g TaskNode list \<Rightarrow> nat \<Rightarrow> bool"
  where
  "resolved tbl other ref t j \<longleftrightarrow>
     timed ref t j \<and> urlResolved t j \<and> groupResolved tbl other t j"

text \<open>
  The specification's account of the candidate URL of an event: the URL of its argument
  data when it has one, or else the URL of the first frame of its call stack, or else
  nothing.  A string that is empty counts as missing.
\<close>

definition ownCandidateURL :: "TraceEvent \<Rightarrow> string option" where
  "ownCandidateURL evt =
     (case data (args evt) of
        None \<Rightarrow> None
      | Some d \<Rightarrow>
          if \<not> falsy (url d) then url d
          else (case stackTrace d of
                  None \<Rightarrow> None
                | Some [] \<Rightarrow> None
                | Some (f # fs) \<Rightarrow> f))"

text \<open>
  A Begin event that is never closed; and a Complete event with a URL that contains a
  Complete event without one, with a table that knows the name of the inner event only.
\<close>

definition exOpen :: "TraceEvent list" where
  "exOpen = [exStarted, traceEvent ''a'' ''B'' 10 None]"

definition exOpenRaw :: "unit TaskNode list" where
  "exOpenRaw = [\<lparr>event = traceEvent ''a'' ''B'' 10 None, startTime = Fin 10, endTime = NaN,
      parent = None, children = [], group = (), attributableURL = None,
      duration = NaN, selfTime = NaN\<rparr>]"

definition urlEvent :: "string \<Rightarrow> real \<Rightarrow> real \<Rightarrow> string \<Rightarrow> TraceEvent" where
  "urlEvent n t d u =
     \<lparr>name = n, ph = ''X'', ts = t, dur = Some d, pid = 1, tid = 1, cat = [],
      args = \<lparr>data = Some \<lparr>url = Some u, stackTrace = None, frames = None, page = None\<rparr>,
              argsName = None\<rparr>\<rparr>"

definition exNested :: "TraceEvent list" where
  "exNested =
     [exStarted, urlEvent ''a'' 1000 4000 ''x.js'', traceEvent ''b'' ''X'' 2000 (Some 1000)]"

definition exTable :: "string \<Rightarrow> string option" where
  "exTable n = (if n = ''b'' then Some ''scripting'' else None)"

definition exNestedRaw :: "string TaskNode list" where
  "exNestedRaw =
     [\<lparr>event = urlEvent ''a'' 1000 4000 ''x.js'', startTime = Fin 1000, endTime = Fin 5000,
       parent = None, children = [1], group = ''other'', attributableURL = None,
       duration = NaN, selfTime = NaN\<rparr>,
      \<lparr>event = traceEvent ''b'' ''X'' 2000 (Some 1000), startTime = Fin 2000,
       endTime = Fin 3000, parent = Some 0, children = [], group = ''other'',
       attributableURL = None, duration = NaN, selfTime = NaN\<rparr>]"

definition exNestedMetrics :: "string TaskNode list" where
  "exNestedMetrics =
     [\<lparr>event = urlEvent ''a'' 1000 4000 ''x.js'', startTime = Fin 1000, endTime = Fin 5000,
       parent = None, children = [1], group = ''other'', attributableURL = Some ''x.js'',
       duration = Fin 4000, selfTime = Fin 3000\<rparr>,
      \<lparr>event = traceEvent ''b'' ''X'' 2000 (Some 1000), startTime = Fin 2000,
       endTime = Fin 3000, parent = Some 0, children = [], group = ''scripting'',
       attributableURL = Some ''x.js'', duration = Fin 1000, selfTime = Fin 1000\<rparr>]"

definition exNestedResult :: "string TaskNode list" where
  "exNestedResult =
     [\<lparr>event = urlEvent ''a'' 1000 4000 ''x.js'', startTime = Fin 0, endTime = Fin 4,
       parent = None, children = [1], group = ''other'', attributableURL = Some ''x.js'',
       duration = Fin 4, selfTime = Fin 3\<rparr>,
      \<lparr>event = traceEvent ''b'' ''X'' 2000 (Some 1000), startTime = Fin 1,
       endTime = Fin 2, parent = Some 0, children = [], group = ''scripting'',
       attributableURL = Some ''x.js'', duration = Fin 1, selfTime = Fin 1\<rparr>]"

section \<open>Notions for the walk over the durations\<close>





section \<open>A trace whose times are rounded\<close>

text \<open>
  A Complete event from 0 to 9, and a second one inside it from 8 to 9, and the tasks that
  \<^verbatim>\<open>getMainThreadTasks\<close> returns for them: the times are the numbers that \<open>0.009\<close>,
  \<open>0.008\<close> and \<open>0.001\<close> denote.
\<close>

definition exRound :: "TraceEvent list" where
  "exRound = [exStarted, traceEvent ''a'' ''X'' 0 (Some 9), traceEvent ''b'' ''X'' 8 (Some 1)]"

definition exRoundResult :: "unit TaskNode list" where
  "exRoundResult =
     [\<lparr>event = traceEvent ''a'' ''X'' 0 (Some 9), startTime = Fin 0,
       endTime = Fin (rnd (9 / 1000)), parent = None, children = [1], group = (),
       attributableURL = None, duration = Fin (rnd (9 / 1000)), selfTime = Fin (rnd (8 / 1000))\<rparr>,
      \<lparr>event = traceEvent ''b'' ''X'' 8 (Some 1), startTime = Fin (rnd (8 / 1000)),
       endTime = Fin (rnd (9 / 1000)), parent = Some 0, children = [], group = (),
       attributableURL = None, duration = Fin (rnd (1 / 1000)), selfTime = Fin (rnd (1 / 1000))\<rparr>]"

section \<open>Notions for the order of the tasks in time\<close>

text \<open>
  The open tasks: the current task and its ancestors, along the parent references.
\<close>

inductive_set chain :: "'g TaskNode list \<Rightarrow> nat option \<Rightarrow> nat set"
  for tasks :: "'g TaskNode list" and cur :: "nat option" where
  here: "cur = Some c \<Longrightarrow> c \<in> chain tasks cur"
| up: "j \<in> chain tasks cur \<Longrightarrow> parent (tasks ! j) = Some p \<Longrightarrow> p \<in> chain tasks cur"

text \<open>
  The invariant of the scan of events in the order of their timestamps, after the events
  up to the time \<open>T\<close>: a task starts at the timestamp of its event, which is at most \<open>T\<close>;
  the task of a Complete event has a finite end; a task that is not open has ended, by
  \<open>T\<close>; an open task of a Begin event has no end yet; and a child starts no earlier than
  its parent, before the end of a parent that is a Complete event, and ends no later than
  a parent that is a Begin event and has ended.
\<close>

definition startsOK :: "real \<Rightarrow> 'g TaskNode list \<Rightarrow> bool" where
  "startsOK T tasks \<longleftrightarrow>
     (\<forall>j<length tasks. startTime (tasks ! j) = Fin (ts (event (tasks ! j))) \<and>
        ts (event (tasks ! j)) \<le> T)"

definition completeOK :: "'g TaskNode list \<Rightarrow> bool" where
  "completeOK tasks \<longleftrightarrow>
     (\<forall>j<length tasks. ph (event (tasks ! j)) = ''X'' \<longrightarrow> isFinite (endTime (tasks ! j)))"

definition closedOK :: "real \<Rightarrow> 'g TaskNode list \<Rightarrow> nat option \<Rightarrow> bool" where
  "closedOK T tasks cur \<longleftrightarrow>
     (\<forall>j<length tasks. j \<notin> chain tasks cur \<longrightarrow>
        isFinite (endTime (tasks ! j)) \<and> js_le (endTime (tasks ! j)) (Fin T))"

definition openOK :: "'g TaskNode list \<Rightarrow> nat option \<Rightarrow> bool" where
  "openOK tasks cur \<longleftrightarrow>
     (\<forall>j\<in>chain tasks cur. ph (event (tasks ! j)) = ''B'' \<longrightarrow> endTime (tasks ! j) = NaN)"

definition nested :: "'g TaskNode list \<Rightarrow> nat \<Rightarrow> nat \<Rightarrow> bool" where
  "nested tasks j p \<longleftrightarrow>
     js_le (startTime (tasks ! p)) (startTime (tasks ! j)) \<and>
     (ph (event (tasks ! p)) = ''X'' \<longrightarrow> js_lt (startTime (tasks ! j)) (endTime (tasks ! p))) \<and>
     (ph (event (tasks ! p)) = ''B'' \<and> isFinite (endTime (tasks ! p)) \<longrightarrow>
        isFinite (endTime (tasks ! j)) \<and> js_le (endTime (tasks ! j)) (endTime (tasks ! p)))"

definition nestedOK :: "'g TaskNode list \<Rightarrow> bool" where
  "nestedOK tasks \<longleftrightarrow>
     (\<forall>j<length tasks. \<forall>p. parent (tasks ! j) = Some p \<longrightarrow> nested tasks j p)"

definition timeInv :: "real \<Rightarrow> 'g TaskNode list \<times> nat option \<Rightarrow> bool" where
  "timeInv T st \<longleftrightarrow>
     scanInv st \<and> startsOK T (fst st) \<and> completeOK (fst st) \<and>
     closedOK T (fst st) (snd st) \<and> openOK (fst st) (snd st) \<and> nestedOK (fst st)"

text \<open>
  A Begin event, a Complete event inside it, and the End event, and the tasks made of them.
\<close>

definition exSpan :: "TraceEvent list" where
  "exSpan = [exStarted, traceEvent ''a'' ''B'' 10 None, traceEvent ''b'' ''X'' 12 (Some 3),
             traceEvent ''a'' ''E'' 20 None]"

definition exSpanRaw :: "unit TaskNode list" where
  "exSpanRaw =
     [\<lparr>event = traceEvent ''a'' ''B'' 10 None, startTime = Fin 10, endTime = Fin 20,
       parent = None, children = [1], group = (), attributableURL = None,
       duration = NaN, selfTime = NaN\<rparr>,
      \<lparr>event = traceEvent ''b'' ''X'' 12 (Some 3), startTime = Fin 12, endTime = Fin 15,
       parent = Some 0, children = [], group = (), attributableURL = None,
       duration = NaN, selfTime = NaN\<rparr>]"

section \<open>Notions for the rounding\<close>

text \<open>
  The numbers that the rounding can give: an integer of fewer than 54 bits, times a power
  of two.
\<close>

definition isDouble :: "real \<Rightarrow> bool" where
  "isDouble y \<longleftrightarrow> (\<exists>m k. \<bar>m\<bar> < 2 ^ 53 \<and> y = of_int m * 2 powi k)"

section \<open>Properties of the rounding\<close>

lemma expo_bounds:
  assumes "x \<noteq> 0"
  shows "2 powi expo x \<le> \<bar>x\<bar>" and "\<bar>x\<bar> < 2 powi (expo x + 1)"
proof -
  have "2 powi expo x \<le> \<bar>x\<bar> \<and> \<bar>x\<bar> < 2 powi (expo x + 1)"
  proof (cases "1 \<le> \<bar>x\<bar>")
    case True
    let ?n = "\<lfloor>\<bar>x\<bar>\<rfloor>"
    from True have n: "0 < ?n" by simp
    from bitlen_bounds [OF n] have lo: "2 ^ nat (bitlen ?n - 1) \<le> ?n"
      and hi: "?n < 2 ^ nat (bitlen ?n)" by simp_all
    from n have b: "1 \<le> bitlen ?n" by (simp add: bitlen_alt_def)
    have e: "expo x = bitlen ?n - 1" using True by (simp add: expo_def)
    from lo have "real_of_int (2 ^ nat (bitlen ?n - 1)) \<le> real_of_int ?n"
      by (simp only: of_int_le_iff)
    moreover have "real_of_int ?n \<le> \<bar>x\<bar>" by (rule of_int_floor_le)
    ultimately have "real_of_int (2 ^ nat (bitlen ?n - 1)) \<le> \<bar>x\<bar>" by (rule order_trans)
    then have "(2::real) ^ nat (bitlen ?n - 1) \<le> \<bar>x\<bar>" by simp
    with b have l: "2 powi expo x \<le> \<bar>x\<bar>" by (simp add: e power_int_nonneg_exp)
    from hi have "?n + 1 \<le> 2 ^ nat (bitlen ?n)" by simp
    then have "real_of_int (?n + 1) \<le> real_of_int (2 ^ nat (bitlen ?n))"
      by (simp only: of_int_le_iff)
    moreover have "\<bar>x\<bar> < real_of_int (?n + 1)" by simp
    ultimately have "\<bar>x\<bar> < real_of_int (2 ^ nat (bitlen ?n))" by (rule less_le_trans [rotated])
    then have "\<bar>x\<bar> < (2::real) ^ nat (bitlen ?n)" by simp
    with b have "\<bar>x\<bar> < 2 powi (expo x + 1)" by (simp add: e power_int_nonneg_exp)
    with l show ?thesis ..
  next
    case False
    with assms have x: "0 < \<bar>x\<bar>" "\<bar>x\<bar> < 1" by simp_all
    define y where "y = 1 / \<bar>x\<bar>"
    define N where "N = \<lceil>y\<rceil> - 1"
    define k where "k = bitlen N"
    from x have y: "1 < y" by (simp add: y_def)
    then have N: "0 < N" by (simp add: N_def)
    from bitlen_bounds [OF N] have lo: "2 ^ nat (k - 1) \<le> N"
      and hi: "N < 2 ^ nat k" by (simp_all add: k_def)
    from N have b: "1 \<le> k" by (simp add: k_def bitlen_alt_def)
    have e: "expo x = - k" using False by (simp add: expo_def k_def N_def y_def)
    have Ny: "real_of_int N < y" "y \<le> real_of_int N + 1" unfolding N_def by linarith+
    from hi have "N + 1 \<le> 2 ^ nat k" by simp
    then have "real_of_int (N + 1) \<le> real_of_int (2 ^ nat k)" by (simp only: of_int_le_iff)
    then have "real_of_int N + 1 \<le> 2 ^ nat k" by simp
    with Ny(2) have "y \<le> 2 ^ nat k" by linarith
    with x(1) have "1 \<le> 2 ^ nat k * \<bar>x\<bar>" by (simp add: y_def field_simps)
    then have "1 / 2 ^ nat k \<le> \<bar>x\<bar>" by (simp add: field_simps)
    moreover from b have "(2::real) powi (- k) = 1 / 2 ^ nat k"
      by (simp add: power_int_minus_divide power_int_nonneg_exp)
    ultimately have l: "2 powi expo x \<le> \<bar>x\<bar>" by (simp add: e)
    from lo have "real_of_int (2 ^ nat (k - 1)) \<le> real_of_int N" by (simp only: of_int_le_iff)
    then have "2 ^ nat (k - 1) \<le> real_of_int N" by simp
    with Ny(1) have "2 ^ nat (k - 1) < y" by linarith
    with x(1) have "2 ^ nat (k - 1) * \<bar>x\<bar> < 1" by (simp add: y_def field_simps)
    then have "\<bar>x\<bar> < 1 / 2 ^ nat (k - 1)" by (simp add: field_simps)
    moreover from b have "(2::real) powi (- k + 1) = 1 / 2 ^ nat (k - 1)"
      using power_int_minus_divide [of "2::real" "k - 1"] by (simp add: power_int_nonneg_exp)
    ultimately have "\<bar>x\<bar> < 2 powi (expo x + 1)" by (simp add: e)
    with l show ?thesis ..
  qed
  then show "2 powi expo x \<le> \<bar>x\<bar>" and "\<bar>x\<bar> < 2 powi (expo x + 1)" by simp_all
qed

lemma expo_eqI:
  assumes "2 powi e \<le> \<bar>x\<bar>" and "\<bar>x\<bar> < 2 powi (e + 1)"
  shows "expo x = e"
proof -
  have "(0::real) < 2 powi e" by simp
  with assms(1) have "0 < \<bar>x\<bar>" by linarith
  then have "x \<noteq> 0" by simp
  note b = expo_bounds [OF this]
  have "\<not> expo x < e"
  proof
    assume "expo x < e"
    then have "(2::real) powi (expo x + 1) \<le> 2 powi e" by (simp add: power_int_increasing)
    with assms(1) b(2) show False by linarith
  qed
  moreover have "\<not> e < expo x"
  proof
    assume "e < expo x"
    then have "(2::real) powi (e + 1) \<le> 2 powi expo x" by (simp add: power_int_increasing)
    with assms(2) b(1) show False by linarith
  qed
  ultimately show ?thesis by simp
qed

lemma expo_log: "x \<noteq> 0 \<Longrightarrow> expo x = \<lfloor>log 2 \<bar>x\<bar>\<rfloor>"
proof -
  assume nz: "x \<noteq> 0"
  then have pos: "0 < \<bar>x\<bar>" by simp
  have p: "(2::real) powr real_of_int n = 2 powi n" for n
    by (rule powr_real_of_int') simp_all
  have "2 powi \<lfloor>log 2 \<bar>x\<bar>\<rfloor> \<le> \<bar>x\<bar>"
    using pos by (simp add: le_log_iff [symmetric] flip: p)
  moreover have "log 2 \<bar>x\<bar> < real_of_int (\<lfloor>log 2 \<bar>x\<bar>\<rfloor> + 1)" by simp
  then have "\<bar>x\<bar> < 2 powi (\<lfloor>log 2 \<bar>x\<bar>\<rfloor> + 1)"
    unfolding log_less_iff [OF _ pos, of 2, simplified] by (simp only: p)
  ultimately show ?thesis by (rule expo_eqI)
qed

lemma roundEven_near: "\<bar>real_of_int (roundEven y) - y\<bar> \<le> 1 / 2"
  unfolding roundEven_def Let_def by (auto simp: abs_if) linarith+

lemma roundEven_spec:
  "\<bar>real_of_int (roundEven y) - y\<bar> < 1 / 2 \<or>
   (\<bar>real_of_int (roundEven y) - y\<bar> = 1 / 2 \<and> even (roundEven y))"
  unfolding roundEven_def Let_def by (auto simp: abs_if) linarith+

lemma roundEven_unique:
  assumes "\<bar>real_of_int m - y\<bar> < 1 / 2 \<or> (\<bar>real_of_int m - y\<bar> = 1 / 2 \<and> even m)"
  shows "roundEven y = m"
proof (rule ccontr)
  assume ne: "roundEven y \<noteq> m"
  let ?r = "roundEven y"
  note near = roundEven_near [of y]
  from assms near have "\<bar>real_of_int ?r - real_of_int m\<bar> \<le> 1" by linarith
  then have "\<bar>?r - m\<bar> \<le> 1" by linarith
  with ne have d: "?r = m + 1 \<or> ?r = m - 1" by linarith
  then have d': "real_of_int ?r = real_of_int m + 1 \<or> real_of_int ?r = real_of_int m - 1"
    by auto
  have half: "\<bar>real_of_int m - y\<bar> = 1 / 2"
  proof (rule ccontr)
    assume "\<bar>real_of_int m - y\<bar> \<noteq> 1 / 2"
    with assms have "\<bar>real_of_int m - y\<bar> < 1 / 2" by blast
    with near d' show False by linarith
  qed
  with assms have em: "even m" by linarith
  from d' half near have "\<bar>real_of_int ?r - y\<bar> = 1 / 2" by linarith
  with roundEven_spec [of y] have "even ?r" by linarith
  with d em show False by auto
qed

lemma rnd_eqI:
  assumes "2 powi e \<le> \<bar>x\<bar>" and "\<bar>x\<bar> < 2 powi (e + 1)"
    and "\<bar>real_of_int m - x / 2 powi (e - 52)\<bar> < 1 / 2 \<or>
         (\<bar>real_of_int m - x / 2 powi (e - 52)\<bar> = 1 / 2 \<and> even m)"
  shows "rnd x = of_int m * 2 powi (e - 52)"
proof -
  have e: "expo x = e" by (rule expo_eqI [OF assms(1,2)])
  have "(0::real) < 2 powi e" by simp
  with assms(1) have "0 < \<bar>x\<bar>" by linarith
  then have "x \<noteq> 0" by simp
  then show ?thesis by (simp add: rnd_def e roundEven_unique [OF assms(3)])
qed

lemma roundEven_minus: "roundEven (- y) = - roundEven y"
proof (rule roundEven_unique)
  have "\<bar>real_of_int (- roundEven y) - - y\<bar> = \<bar>real_of_int (roundEven y) - y\<bar>" by simp
  with roundEven_spec [of y]
  show "\<bar>real_of_int (- roundEven y) - - y\<bar> < 1 / 2 \<or>
        (\<bar>real_of_int (- roundEven y) - - y\<bar> = 1 / 2 \<and> even (- roundEven y))"
    by simp
qed

lemma roundEven_closest: "\<bar>real_of_int (roundEven y) - y\<bar> \<le> \<bar>real_of_int j - y\<bar>"
proof (cases "j = roundEven y")
  case True
  then show ?thesis by simp
next
  case False
  then have "1 \<le> \<bar>j - roundEven y\<bar>" by linarith
  then have "1 \<le> \<bar>real_of_int j - real_of_int (roundEven y)\<bar>" by linarith
  with roundEven_near [of y] show ?thesis by linarith
qed

lemma expo_minus [simp]: "expo (- x) = expo x"
  by (simp add: expo_def)

lemma rnd_0 [simp]: "rnd 0 = 0"
  by (simp add: rnd_def)

lemma rnd_minus: "rnd (- x) = - rnd x"
  by (simp add: rnd_def roundEven_minus)

lemma two_powi_split: "(2::real) ^ n * 2 powi (e - int n) = 2 powi e"
  using power_int_add [of "2::real" "int n" "e - int n"] by simp

lemma rnd_grid:
  assumes "x \<noteq> 0"
  shows "\<bar>rnd x - x\<bar> \<le> \<bar>real_of_int j * 2 powi (expo x - 52) - x\<bar>"
proof -
  let ?u = "2 powi (expo x - 52) :: real"
  have u: "0 < ?u" by simp
  have scale: "\<bar>real_of_int i * ?u - x\<bar> = \<bar>real_of_int i - x / ?u\<bar> * ?u" for i
  proof -
    have "real_of_int i * ?u - x = (real_of_int i - x / ?u) * ?u"
      by (simp add: left_diff_distrib)
    then show ?thesis using u by (simp add: abs_mult)
  qed
  have "\<bar>rnd x - x\<bar> = \<bar>real_of_int (roundEven (x / ?u)) - x / ?u\<bar> * ?u"
    using assms scale [of "roundEven (x / ?u)"] by (simp add: rnd_def)
  also have "\<dots> \<le> \<bar>real_of_int j - x / ?u\<bar> * ?u"
    using roundEven_closest [of "x / ?u" j] u by (simp add: mult_right_mono)
  also have "\<dots> = \<bar>real_of_int j * ?u - x\<bar>"
    by (rule scale [symmetric])
  finally show ?thesis .
qed

lemma isDouble_minus: "isDouble (- y) = isDouble y"
proof -
  have "isDouble (- y)" if "isDouble y" for y
  proof -
    from that obtain m k where "\<bar>m\<bar> < 2 ^ 53" "y = of_int m * 2 powi k"
      unfolding isDouble_def by blast
    then have "\<bar>- m\<bar> < 2 ^ 53 \<and> - y = of_int (- m) * 2 powi k" by simp
    then show ?thesis unfolding isDouble_def by blast
  qed
  from this [of y] this [of "- y"] show ?thesis by auto
qed

lemma rnd_nearest_pos:
  assumes x: "0 < x" and y: "isDouble y"
  shows "\<bar>rnd x - x\<bar> \<le> \<bar>y - x\<bar>"
proof -
  let ?e = "expo x"
  let ?u = "2 powi (?e - 52) :: real"
  from x have x0: "x \<noteq> 0" by simp
  from expo_bounds [OF x0] x have b: "2 powi ?e \<le> x" "x < 2 powi (?e + 1)" by simp_all
  have lo: "real_of_int (2 ^ 52) * ?u = 2 powi ?e"
    using two_powi_split [of 52 ?e] by simp
  have hi: "real_of_int (2 ^ 53) * ?u = 2 powi (?e + 1)"
    using two_powi_split [of 53 "?e + 1"] by simp
  consider "2 powi (?e + 1) \<le> y" | "y \<le> 2 powi ?e" | "2 powi ?e < y" "y < 2 powi (?e + 1)"
    by linarith
  then show ?thesis
  proof cases
    case 1
    from rnd_grid [OF x0, of "2 ^ 53"] hi have "\<bar>rnd x - x\<bar> \<le> \<bar>2 powi (?e + 1) - x\<bar>" by simp
    with 1 b show ?thesis by linarith
  next
    case 2
    from rnd_grid [OF x0, of "2 ^ 52"] lo have "\<bar>rnd x - x\<bar> \<le> \<bar>2 powi ?e - x\<bar>" by simp
    with 2 b show ?thesis by linarith
  next
    case 3
    from y obtain m k where m: "\<bar>m\<bar> < 2 ^ 53" and yk: "y = of_int m * 2 powi k"
      unfolding isDouble_def by blast
    have "(0::real) < 2 powi ?e" by simp
    with 3(1) have ypos: "0 < y" by linarith
    have k: "?e - 52 \<le> k"
    proof (rule ccontr)
      assume "\<not> ?e - 52 \<le> k"
      then have "k \<le> ?e - 53" by simp
      then have "(2::real) powi k \<le> 2 powi (?e - 53)" by (simp add: power_int_increasing)
      moreover from m have "real_of_int \<bar>m\<bar> < real_of_int (2 ^ 53)"
        by (simp only: of_int_less_iff)
      then have "\<bar>real_of_int m\<bar> \<le> 2 ^ 53" by simp
      ultimately have "\<bar>real_of_int m\<bar> * 2 powi k \<le> 2 ^ 53 * 2 powi (?e - 53)"
        by (intro mult_mono) simp_all
      also have "\<dots> = 2 powi ?e" using two_powi_split [of 53 ?e] by simp
      finally have "\<bar>y\<bar> \<le> 2 powi ?e" by (simp add: yk abs_mult)
      with 3(1) ypos show False by simp
    qed
    define j where "j = m * 2 ^ nat (k - (?e - 52))"
    have "(2::real) powi k = 2 powi (k - (?e - 52)) * ?u"
      using power_int_add [of "2::real" "k - (?e - 52)" "?e - 52"] by simp
    also have "(2::real) powi (k - (?e - 52)) = 2 ^ nat (k - (?e - 52))"
      using k by (simp add: power_int_nonneg_exp)
    finally have "y = real_of_int j * ?u" by (simp add: yk j_def)
    with rnd_grid [OF x0, of j] show ?thesis by simp
  qed
qed

lemma rnd_nearest:
  assumes "isDouble y"
  shows "\<bar>rnd x - x\<bar> \<le> \<bar>y - x\<bar>"
proof -
  consider "x = 0" | "0 < x" | "x < 0" by linarith
  then show ?thesis
  proof cases
    case 1
    then show ?thesis by simp
  next
    case 2
    from rnd_nearest_pos [OF this assms] show ?thesis .
  next
    case 3
    then have "0 < - x" by simp
    from rnd_nearest_pos [OF this, of "- y"] assms
    have "\<bar>rnd (- x) - - x\<bar> \<le> \<bar>- y - - x\<bar>" by (simp add: isDouble_minus)
    then show ?thesis by (simp add: rnd_minus)
  qed
qed

lemma rnd_fix: "isDouble y \<Longrightarrow> rnd y = y"
  using rnd_nearest [of y y] by simp

lemma isDouble_rnd: "isDouble (rnd x)"
proof (cases "x = 0")
  case True
  have "\<bar>0::int\<bar> < 2 ^ 53 \<and> (0::real) = of_int 0 * 2 powi 0" by simp
  then have "isDouble 0" unfolding isDouble_def by blast
  with True show ?thesis by simp
next
  case False
  let ?e = "expo x"
  let ?u = "2 powi (?e - 52) :: real"
  let ?n = "roundEven (x / ?u)"
  have u: "0 < ?u" by simp
  have "\<bar>x\<bar> < 2 ^ 53 * ?u"
    using expo_bounds(2) [OF False] two_powi_split [of 53 "?e + 1"] by simp
  then have "\<bar>x / ?u\<bar> < 2 ^ 53" using u by (simp add: pos_divide_less_eq)
  with roundEven_near [of "x / ?u"] have "\<bar>real_of_int ?n\<bar> < 2 ^ 53 + 1" by linarith
  then have "real_of_int \<bar>?n\<bar> < real_of_int (2 ^ 53 + 1)" by simp
  then have "\<bar>?n\<bar> < 2 ^ 53 + 1" by (simp only: of_int_less_iff)
  then have n: "\<bar>?n\<bar> < 2 ^ 53 \<or> \<bar>?n\<bar> = 2 ^ 53" by linarith
  have r: "rnd x = of_int ?n * ?u" using False by (simp add: rnd_def)
  from n show ?thesis
  proof
    assume "\<bar>?n\<bar> < 2 ^ 53"
    with r show ?thesis unfolding isDouble_def by blast
  next
    assume eq: "\<bar>?n\<bar> = 2 ^ 53"
    define s :: int where "s = (if 0 \<le> ?n then 1 else - 1)"
    from eq have n': "?n = s * 2 ^ 53" by (auto simp: s_def abs_if split: if_splits)
    have "(2::real) ^ 53 * ?u = 2 powi (?e + 1)"
      using two_powi_split [of 53 "?e + 1"] by simp
    then have "rnd x = of_int s * 2 powi (?e + 1)" by (simp add: r n' mult.assoc)
    moreover have "\<bar>s\<bar> < 2 ^ 53" by (simp add: s_def)
    ultimately show ?thesis unfolding isDouble_def by blast
  qed
qed

lemma rnd_mono:
  assumes "x \<le> y"
  shows "rnd x \<le> rnd y"
proof (rule ccontr)
  assume "\<not> rnd x \<le> rnd y"
  then have lt: "rnd y < rnd x" by simp
  from rnd_nearest [OF isDouble_rnd, of x y] have a: "\<bar>rnd x - x\<bar> \<le> \<bar>rnd y - x\<bar>" .
  from rnd_nearest [OF isDouble_rnd, of y x] have b: "\<bar>rnd y - y\<bar> \<le> \<bar>rnd x - y\<bar>" .
  from a lt have "rnd x + rnd y \<le> 2 * x" by linarith
  moreover from b lt have "2 * y \<le> rnd x + rnd y" by linarith
  ultimately have "x = y" using assms by linarith
  with lt show False by simp
qed

lemma isDouble_of_int: "\<bar>n\<bar> < 2 ^ 53 \<Longrightarrow> isDouble (of_int n)"
proof -
  assume "\<bar>n\<bar> < 2 ^ 53"
  then have "\<bar>n\<bar> < 2 ^ 53 \<and> real_of_int n = of_int n * 2 powi 0" by simp
  then show ?thesis unfolding isDouble_def by blast
qed

lemma rnd_of_int: "\<bar>n\<bar> < 2 ^ 53 \<Longrightarrow> rnd (of_int n) = of_int n"
  by (rule rnd_fix [OF isDouble_of_int])


lemma rnd_eq_0_iff [simp]: "rnd x = 0 \<longleftrightarrow> x = 0"
proof
  assume z: "rnd x = 0"
  show "x = 0"
  proof (rule ccontr)
    assume nz: "x \<noteq> 0"
    have "\<bar>1::int\<bar> < 2 ^ 53 \<and> (2::real) powi expo x = of_int 1 * 2 powi expo x" by simp
    then have dbl: "isDouble (2 powi expo x)" unfolding isDouble_def by blast
    have pos: "(0::real) < 2 powi expo x" by simp
    show False
    proof (cases "0 < x")
      case True
      from rnd_nearest [OF dbl, of x] z expo_bounds(1) [OF nz] True pos show False by simp
    next
      case False
      with nz have neg: "x < 0" by simp
      from dbl have "isDouble (- (2 powi expo x))" by (simp add: isDouble_minus)
      from rnd_nearest [OF this, of x] z expo_bounds(1) [OF nz] neg pos show False by simp
    qed
  qed
qed simp


lemma rnd_nonneg: "0 \<le> x \<Longrightarrow> 0 \<le> rnd x"
  using rnd_mono [of 0 x] by simp


lemma rnd_numeral: "numeral k < (2::int) ^ 53 \<Longrightarrow> rnd (numeral k) = numeral k"
  using rnd_of_int [of "numeral k"] by simp

lemma rnd_neg_numeral: "numeral k < (2::int) ^ 53 \<Longrightarrow> rnd (- numeral k) = - numeral k"
  using rnd_of_int [of "- numeral k"] by simp

lemma rnd_1: "rnd 1 = 1"
  using rnd_of_int [of 1] by simp

lemmas fl_eval = fl_add_def fl_sub_def fl_mul_def fl_div_def rnd_numeral rnd_neg_numeral rnd_1

section \<open>Properties of the top-level events and of the percentiles\<close>

lemma js_lt_le: "x \<noteq> NaN \<Longrightarrow> y \<noteq> NaN \<Longrightarrow> js_lt x y \<longleftrightarrow> \<not> js_le y x"
  by (cases x; cases y) auto

lemma topLevelLoop_filter:
  "w0 \<noteq> NaN \<Longrightarrow> w1 \<noteq> NaN \<Longrightarrow>
   topLevelLoop nav w0 w1 evts =
     map (toplevelOf nav)
       (filter (\<lambda>e. isScheduleableTask e \<and> \<not> noDur e \<and> inWindow nav w0 w1 e) evts)"
  by (induction evts) (auto simp: Let_def inWindow_def toplevelOf_def js_lt_le)

lemma sorted_map_filter_start:
  "sorted (map ts evts) \<Longrightarrow> sorted (map evStart (map (toplevelOf nav) (filter P evts)))"
  by (induction evts)
    (auto simp: toplevelOf_def fl_div_def fl_sub_def intro!: rnd_mono divide_right_mono)

lemma macrotask_filter_eq:
  "(isScheduleableTask e \<and> \<not> noDur e \<and> Q) \<longleftrightarrow>
   ((name e = ''TaskQueueManager::ProcessTaskFromWorkQueue'' \<or>
     name e = ''ThreadControllerImpl::DoWork'') \<and> dur e \<noteq> None \<and> dur e \<noteq> Some 0 \<and> Q)"
  by (auto simp: isScheduleableTask_def noDur_def SCHEDULABLE_TASK_TITLE_def
      SCHEDULABLE_TASK_TITLE_ALT_def split: option.splits)

text \<open>
  Claim C8.  For window bounds that are not \<open>NaN\<close>, \<^verbatim>\<open>getMainThreadTopLevelEvents\<close>
  returns the records of exactly the main-thread events that carry one of the two
  scheduler names, have a duration that is not zero and overlap the inclusive window, in
  the order of the input; it throws when there is none, and never returns the empty list.
  The input is documented as sorted by start, and then the result is ascending by start.
\<close>

theorem getMainThreadTopLevelEvents_exact:
  assumes "w0 \<noteq> Some NaN" and "w1 \<noteq> Some NaN"
  shows "getMainThreadTopLevelEvents tabTrace w0 w1 =
           (if macrotasksInWindow tabTrace w0 w1 = [] then Inl NoTopLevelEvents
            else Inr (map (toplevelOf (navigationStartEvt tabTrace))
                        (macrotasksInWindow tabTrace w0 w1))) \<and>
         getMainThreadTopLevelEvents tabTrace w0 w1 \<noteq> Inr [] \<and>
         (sorted (map ts (mainThreadEvents tabTrace)) \<longrightarrow>
            sorted (map evStart (map (toplevelOf (navigationStartEvt tabTrace))
                        (macrotasksInWindow tabTrace w0 w1))))"
proof -
  let ?lo = "case w0 of None \<Rightarrow> Fin 0 | Some t \<Rightarrow> t"
  let ?hi = "case w1 of None \<Rightarrow> PInf | Some t \<Rightarrow> t"
  have lo: "?lo \<noteq> NaN" using assms(1) by (cases w0) auto
  have hi: "?hi \<noteq> NaN" using assms(2) by (cases w1) auto
  have loop: "topLevelLoop (navigationStartEvt tabTrace) ?lo ?hi (mainThreadEvents tabTrace) =
      map (toplevelOf (navigationStartEvt tabTrace)) (macrotasksInWindow tabTrace w0 w1)"
    unfolding macrotasksInWindow_def topLevelLoop_filter [OF lo hi] macrotask_filter_eq ..
  have res: "getMainThreadTopLevelEvents tabTrace w0 w1 =
           (if macrotasksInWindow tabTrace w0 w1 = [] then Inl NoTopLevelEvents
            else Inr (map (toplevelOf (navigationStartEvt tabTrace))
                        (macrotasksInWindow tabTrace w0 w1)))"
    unfolding getMainThreadTopLevelEvents_def Let_def loop by simp
  have ne: "getMainThreadTopLevelEvents tabTrace w0 w1 \<noteq> Inr []"
    unfolding res by simp
  have srt: "sorted (map ts (mainThreadEvents tabTrace)) \<longrightarrow>
            sorted (map evStart (map (toplevelOf (navigationStartEvt tabTrace))
                        (macrotasksInWindow tabTrace w0 w1)))"
    unfolding macrotasksInWindow_def by (rule impI) (rule sorted_map_filter_start)
  from res ne srt show ?thesis by blast
qed

theorem getMainThreadTopLevelEvents_exact_witness:
  "Some (Fin 0) \<noteq> Some NaN \<and> Some (Fin 4) \<noteq> Some NaN \<and>
   getMainThreadTopLevelEvents exTab (Some (Fin 0)) (Some (Fin 4)) =
     Inr [\<lparr>evStart = 1, evEnd = 3, evDuration = 2\<rparr>] \<and>
   sorted (map ts (mainThreadEvents exTab)) \<and>
   sorted (map evStart [\<lparr>evStart = 1, evEnd = 3, evDuration = 2\<rparr>])"
  using getMainThreadTopLevelEvents_exact [of "Some (Fin 0)" "Some (Fin 4)" exTab]
  by (simp add: macrotasksInWindow_def exTab_def traceEvent_def inWindow_def toplevelOf_def
      fl_eval)

lemma riskLoop_percentiles: "map percentile (riskLoop ds T w ps) = ps"
  by (induction ps arbitrary: w) (simp_all add: Let_def)

text \<open>
  Claim C10.  \<^verbatim>\<open>getRiskToResponsiveness\<close> leaves the array of percentiles it was given
  sorted in ascending order, with the same elements, and the percentiles of the pairs it
  returns are that sorted array, whatever the order of the argument.
\<close>

theorem getRiskToResponsiveness_sorts_percentiles:
  "fst (getRiskToResponsiveness evts w0 w1 ps) = sort ps \<and>
   sorted (fst (getRiskToResponsiveness evts w0 w1 ps)) \<and>
   mset (fst (getRiskToResponsiveness evts w0 w1 ps)) = mset ps \<and>
   map percentile (snd (getRiskToResponsiveness evts w0 w1 ps)) = sort ps \<and>
   sorted (map percentile (snd (getRiskToResponsiveness evts w0 w1 ps)))"
  by (simp add: getRiskToResponsiveness_def Let_def riskPercentiles_def riskLoop_percentiles)

section \<open>Properties of the reconstruction\<close>

lemmas ex_simps = exStarted_def traceEvent_def createTasksFromEvents_def
  findTracingStartedEvt_def taskStep_def ascend.simps createNewTaskNode_def fl_eval

lemma taskLoop_append:
  "taskLoop other started st (xs @ ys) =
     (case taskLoop other started st xs of
        None \<Rightarrow> None
      | Some (Inl e) \<Rightarrow> Some (Inl e)
      | Some (Inr st') \<Rightarrow> taskLoop other started st' ys)"
  by (induction xs arbitrary: st) (auto split: option.splits sum.splits)

text \<open>
  Claim C5.  Let the scan have reached the state \<open>(tasks, currentTask)\<close> after the events
  \<open>pre\<close>, and let the next event be an End event of the main thread.  If the loop that
  leaves the ended tasks ends with no current task, or with a current task whose event
  is not a Begin event, then \<^verbatim>\<open>_createTasksFromEvents\<close> throws
  \<open>Fatal trace logic error\<close>, whatever events follow, and so does
  \<^verbatim>\<open>getMainThreadTasks\<close>: no list of tasks is returned.
\<close>

theorem end_event_is_fatal:
  assumes "findTracingStartedEvt (pre @ evt # post) = Inr (started, frameId)"
    and "taskLoop other started ([], None) pre = Some (Inr (tasks, currentTask))"
    and "pid evt = pid started" and "tid evt = tid started" and "ph evt = ''E''"
    and "ascend tasks (ts evt) currentTask = Some c"
    and "c = None \<or> (\<exists>i. c = Some i \<and> ph (event (tasks ! i)) \<noteq> ''B'')"
  shows "createTasksFromEvents other (pre @ evt # post) = Some (Inl FatalTraceLogicError) \<and>
         getMainThreadTasks fuel taskNameToGroup other (pre @ evt # post) =
           Some (Inl FatalTraceLogicError)"
proof -
  have step: "taskStep other started (tasks, currentTask) evt = Some (Inl FatalTraceLogicError)"
    using assms(3-7) by (auto simp: taskStep_def)
  have "taskLoop other started ([], None) (pre @ evt # post) = Some (Inl FatalTraceLogicError)"
    by (simp add: taskLoop_append assms(2) step)
  then have "createTasksFromEvents other (pre @ evt # post) = Some (Inl FatalTraceLogicError)"
    by (simp add: createTasksFromEvents_def assms(1))
  then show ?thesis by (simp add: getMainThreadTasks_def)
qed

theorem end_event_is_fatal_witness:
  "findTracingStartedEvt ([exStarted] @ traceEvent ''a'' ''E'' 5 None # []) =
     Inr (exStarted, None) \<and>
   taskLoop () exStarted ([], None) [exStarted] = Some (Inr ([], None)) \<and>
   pid (traceEvent ''a'' ''E'' 5 None) = pid exStarted \<and>
   tid (traceEvent ''a'' ''E'' 5 None) = tid exStarted \<and>
   ph (traceEvent ''a'' ''E'' 5 None) = ''E'' \<and>
   ascend ([] :: unit TaskNode list) (ts (traceEvent ''a'' ''E'' 5 None)) None = Some None \<and>
   createTasksFromEvents () ([exStarted] @ traceEvent ''a'' ''E'' 5 None # []) =
     Some (Inl FatalTraceLogicError)"
  using end_event_is_fatal [of "[exStarted]" "traceEvent ''a'' ''E'' 5 None" "[]" exStarted
      None "()" "[]" None None]
  by (simp add: ex_simps)

text \<open>
  Claim C6 as stated fails: on a Begin event \<open>a\<close> followed by an End event \<open>b\<close> the
  reconstructor throws nothing, and returns the task of \<open>a\<close> closed at the time of \<open>b\<close>.
\<close>

theorem unrelated_end_closes_begin:
  "createTasksFromEvents () exBeginEnd =
     Some (Inr [\<lparr>event = traceEvent ''a'' ''B'' 10 None, startTime = Fin 10, endTime = Fin 20,
                 parent = None, children = [], group = (), attributableURL = None,
                 duration = NaN, selfTime = NaN\<rparr>])"
  by (simp add: exBeginEnd_def ex_simps)

text \<open>
  Claim C6, amended.  A Begin event of the main thread followed at once by an End event of
  the main thread never throws: whatever the names of the two events, the End event sets
  the \<open>endTime\<close> of the task that the Begin event opened to its own timestamp, and the
  current task is again the one from before the Begin event.
\<close>

theorem begin_then_end_closes:
  assumes "pid evB = pid started" and "tid evB = tid started" and "ph evB = ''B''"
    and "pid evE = pid started" and "tid evE = tid started" and "ph evE = ''E''"
    and "ascend tasks (ts evB) currentTask = Some c"
  shows "taskLoop other started (tasks, currentTask) [evB, evE] =
           Some (Inr ((createNewTaskNode other evB c tasks)
                        [length tasks := (createNewTaskNode other evB c tasks ! length tasks)
                           \<lparr>endTime := Fin (ts evE)\<rparr>], c)) \<and>
         event (createNewTaskNode other evB c tasks ! length tasks) = evB"
proof -
  let ?t = "createNewTaskNode other evB c tasks"
  have new: "?t ! length tasks =
      \<lparr>event = evB, startTime = Fin (ts evB), endTime = NaN, parent = c, children = [],
       group = other, attributableURL = None, duration = NaN, selfTime = NaN\<rparr>"
    using assms(3) by (cases c) (simp_all add: createNewTaskNode_def nth_append)
  have s1: "taskStep other started (tasks, currentTask) evB = Some (Inr (?t, Some (length tasks)))"
    using assms(1-3,7) by (cases c) (simp_all add: taskStep_def)
  have asc: "ascend ?t (ts evE) (Some (length tasks)) = Some (Some (length tasks))"
    by (subst ascend.simps) (simp add: new)
  have s2: "taskStep other started (?t, Some (length tasks)) evE =
      Some (Inr (?t[length tasks := (?t ! length tasks)\<lparr>endTime := Fin (ts evE)\<rparr>], c))"
    using assms(4-6) by (simp add: taskStep_def asc) (simp add: new assms(3))
  show ?thesis by (simp add: s1 s2) (simp add: new)
qed

theorem begin_then_end_closes_witness:
  "pid (traceEvent ''a'' ''B'' 10 None) = pid exStarted \<and>
   tid (traceEvent ''a'' ''B'' 10 None) = tid exStarted \<and>
   ph (traceEvent ''a'' ''B'' 10 None) = ''B'' \<and>
   pid (traceEvent ''b'' ''E'' 20 None) = pid exStarted \<and>
   tid (traceEvent ''b'' ''E'' 20 None) = tid exStarted \<and>
   ph (traceEvent ''b'' ''E'' 20 None) = ''E'' \<and>
   ascend ([] :: unit TaskNode list) (ts (traceEvent ''a'' ''B'' 10 None)) None = Some None \<and>
   taskLoop () exStarted ([], None) [traceEvent ''a'' ''B'' 10 None, traceEvent ''b'' ''E'' 20 None] =
     Some (Inr ([\<lparr>event = traceEvent ''a'' ''B'' 10 None, startTime = Fin 10, endTime = Fin 20,
                 parent = None, children = [], group = (), attributableURL = None,
                 duration = NaN, selfTime = NaN\<rparr>], None))"
  using begin_then_end_closes [of "traceEvent ''a'' ''B'' 10 None" exStarted
      "traceEvent ''b'' ''E'' 20 None" "[]" None None "()"]
  by (simp add: ex_simps)

text \<open>
  Claim C2 as stated fails: the second Complete event starts inside the first and becomes
  its child, and it ends at 15, after its parent, which ends at 10.
\<close>

theorem child_ends_after_parent:
  "createTasksFromEvents () exOverrun =
     Some (Inr [\<lparr>event = traceEvent ''a'' ''X'' 0 (Some 10), startTime = Fin 0, endTime = Fin 10,
                 parent = None, children = [1], group = (), attributableURL = None,
                 duration = NaN, selfTime = NaN\<rparr>,
                \<lparr>event = traceEvent ''b'' ''X'' 5 (Some 10), startTime = Fin 5, endTime = Fin 15,
                 parent = Some 0, children = [], group = (), attributableURL = None,
                 duration = NaN, selfTime = NaN\<rparr>]) \<and> \<not> js_le (Fin 15) (Fin 10)"
  by (simp add: exOverrun_def ex_simps)

section \<open>The rescale step\<close>

lemma rescaleLoop_Inr:
  "rescaleLoop f tasks = Inr tasks' \<Longrightarrow> tasks' = map (rescaleTask f) tasks"
  by (induction tasks arbitrary: tasks') (auto simp: Let_def split: if_splits sum.splits)

lemma exSingle_created: "createTasksFromEvents () exSingle = Some (Inr exSingleRaw)"
  by (simp add: exSingle_def exSingleRaw_def ex_simps)

lemma exSingle_metrics:
  "metricsLoop (Suc 0) (\<lambda>n. None) () exSingleRaw [0..<length exSingleRaw] = Some exSingleMetrics"
  by (simp add: exSingleRaw_def exSingleMetrics_def js_sub_def js_or_def taskURL_def falsy_def
      traceEvent_def fl_eval)

lemma exSingle_rescaled:
  "rescaleLoop (firstTs exSingleMetrics) exSingleMetrics = Inr exSingleResult"
  by (simp add: exSingleMetrics_def exSingleResult_def js_sub_def firstTs_def rescaleTask_def
      fl_eval)

lemma exSingle_result:
  "getMainThreadTasks (Suc 0) (\<lambda>n. None) () exSingle = Some (Inr exSingleResult)"
  by (simp add: getMainThreadTasks_def exSingle_created exSingle_metrics exSingle_rescaled)

text \<open>
  Claim C7.  Let \<open>tasks\<close> be the nodes after the metrics passes and \<open>tasks'\<close> the list that
  \<^verbatim>\<open>getMainThreadTasks\<close> returns, and let \<open>ref\<close> be the \<open>startTime\<close> of the first node
  of the list (\<open>0\<close> for the empty list).  For every node the returned \<open>startTime\<close> is
  \<open>(startTime - ref) / 1000\<close>, the returned \<open>endTime\<close> is \<open>(endTime - ref) / 1000\<close>,
  \<open>duration\<close> and \<open>selfTime\<close> are divided by \<open>1000\<close>, and nothing else changes.
\<close>

theorem rescale_is_affine:
  assumes "createTasksFromEvents other evs = Some (Inr tasks0)"
    and "metricsLoop fuel taskNameToGroup other tasks0 [0..<length tasks0] = Some tasks"
    and "getMainThreadTasks fuel taskNameToGroup other evs = Some (Inr tasks')"
    and "ref = (if tasks = [] then Fin 0 else startTime (tasks ! 0))"
  shows "length tasks' = length tasks \<and>
         (\<forall>i<length tasks.
            startTime (tasks' ! i) = js_div (js_sub (startTime (tasks ! i)) ref) (Fin 1000) \<and>
            endTime (tasks' ! i) = js_div (js_sub (endTime (tasks ! i)) ref) (Fin 1000) \<and>
            duration (tasks' ! i) = js_div (duration (tasks ! i)) (Fin 1000) \<and>
            selfTime (tasks' ! i) = js_div (selfTime (tasks ! i)) (Fin 1000) \<and>
            event (tasks' ! i) = event (tasks ! i) \<and>
            parent (tasks' ! i) = parent (tasks ! i) \<and>
            children (tasks' ! i) = children (tasks ! i) \<and>
            group (tasks' ! i) = group (tasks ! i) \<and>
            attributableURL (tasks' ! i) = attributableURL (tasks ! i))"
proof -
  have ref: "ref = firstTs tasks"
    using assms(4) by (cases tasks) (simp_all add: firstTs_def)
  have "rescaleLoop (firstTs tasks) tasks = Inr tasks'"
    using assms(1-3) by (simp add: getMainThreadTasks_def)
  then have "tasks' = map (rescaleTask ref) tasks"
    unfolding ref by (rule rescaleLoop_Inr)
  then show ?thesis by (simp add: rescaleTask_def)
qed

theorem rescale_is_affine_witness:
  "createTasksFromEvents () exSingle = Some (Inr exSingleRaw) \<and>
   metricsLoop (Suc 0) (\<lambda>n. None) () exSingleRaw [0..<length exSingleRaw] =
     Some exSingleMetrics \<and>
   getMainThreadTasks (Suc 0) (\<lambda>n. None) () exSingle = Some (Inr exSingleResult) \<and>
   Fin 3000 = (if exSingleMetrics = [] then Fin 0 else startTime (exSingleMetrics ! 0)) \<and>
   startTime (exSingleResult ! 0) =
     js_div (js_sub (startTime (exSingleMetrics ! 0)) (Fin 3000)) (Fin 1000) \<and>
   endTime (exSingleResult ! 0) = Fin 2"
proof -
  have r: "Fin 3000 = (if exSingleMetrics = [] then Fin 0 else startTime (exSingleMetrics ! 0))"
    by (simp add: exSingleMetrics_def)
  have e: "endTime (exSingleResult ! 0) = Fin 2" by (simp add: exSingleResult_def)
  have l: "0 < length exSingleMetrics" by (simp add: exSingleMetrics_def)
  from rescale_is_affine [OF exSingle_created exSingle_metrics exSingle_result r]
    l e exSingle_created exSingle_metrics exSingle_result r
  show ?thesis by blast
qed

section \<open>The reconstruction keeps the references consistent, and ends\<close>

lemma wfTasks_childD:
  "wfTasks tasks \<Longrightarrow> i < length tasks \<Longrightarrow> c \<in> set (children (tasks ! i)) \<Longrightarrow>
   i < c \<and> c < length tasks \<and> parent (tasks ! c) = Some i"
  unfolding wfTasks_def by blast

lemma wfTasks_parentD:
  "wfTasks tasks \<Longrightarrow> c < length tasks \<Longrightarrow> parent (tasks ! c) = Some p \<Longrightarrow>
   p < c \<and> c \<in> set (children (tasks ! p))"
  unfolding wfTasks_def by blast

lemma length_createNewTaskNode [simp]:
  "length (createNewTaskNode other evt par tasks) = Suc (length tasks)"
  by (simp add: createNewTaskNode_def Let_def split: option.splits)

lemma createNewTaskNode_new:
  "createNewTaskNode other evt par tasks ! length tasks =
     \<lparr>event = evt, startTime = Fin (ts evt),
      endTime = (if ph evt = ''X''
                 then Fin (fl_add (ts evt) (case dur evt of None \<Rightarrow> 0 | Some d \<Rightarrow> d)) else NaN),
      parent = par, children = [], group = other, attributableURL = None,
      duration = NaN, selfTime = NaN\<rparr>"
  by (cases par) (simp_all add: createNewTaskNode_def nth_append)

lemma createNewTaskNode_old:
  "j < length tasks \<Longrightarrow>
   createNewTaskNode other evt par tasks ! j =
     (if par = Some j then (tasks ! j)\<lparr>children := children (tasks ! j) @ [length tasks]\<rparr>
      else tasks ! j)"
  by (cases par) (simp_all add: createNewTaskNode_def nth_append nth_list_update)

lemma wfTasks_createNewTaskNode:
  assumes wf: "wfTasks tasks" and par: "\<forall>p. par = Some p \<longrightarrow> p < length tasks"
  shows "wfTasks (createNewTaskNode other evt par tasks)"
proof -
  let ?t = "createNewTaskNode other evt par tasks"
  have c1: "i < c \<and> c < length ?t \<and> parent (?t ! c) = Some i"
    if "i < length ?t" and "c \<in> set (children (?t ! i))" for i c
  proof (cases "i = length tasks")
    case True
    with that show ?thesis by (simp add: createNewTaskNode_new)
  next
    case False
    with that have i: "i < length tasks" by simp
    show ?thesis
    proof (cases "c = length tasks")
      case True
      have "par = Some i"
      proof (rule ccontr)
        assume "par \<noteq> Some i"
        with that(2) i have "c \<in> set (children (tasks ! i))"
          by (simp add: createNewTaskNode_old)
        with wf i True show False by (auto dest: wfTasks_childD)
      qed
      with True i show ?thesis by (simp add: createNewTaskNode_new)
    next
      case False
      with that(2) i have "c \<in> set (children (tasks ! i))"
        by (auto simp: createNewTaskNode_old split: if_splits)
      with wf i have "i < c \<and> c < length tasks \<and> parent (tasks ! c) = Some i"
        by (auto dest: wfTasks_childD)
      then show ?thesis by (auto simp: createNewTaskNode_old)
    qed
  qed
  have c2: "p < c \<and> c \<in> set (children (?t ! p))"
    if "c < length ?t" and "parent (?t ! c) = Some p" for c p
  proof (cases "c = length tasks")
    case True
    with that par have "par = Some p" "p < length tasks"
      by (auto simp: createNewTaskNode_new)
    with True show ?thesis by (simp add: createNewTaskNode_old)
  next
    case False
    with that have c: "c < length tasks" by simp
    with that(2) have "parent (tasks ! c) = Some p"
      by (auto simp: createNewTaskNode_old split: if_splits)
    with wf c have "p < c \<and> c \<in> set (children (tasks ! p))"
      by (auto dest: wfTasks_parentD)
    with c show ?thesis by (auto simp: createNewTaskNode_old)
  qed
  show ?thesis unfolding wfTasks_def using c1 c2 by blast
qed

lemma wfTasks_cong:
  assumes "length t' = length t"
    and "\<And>j. j < length t \<Longrightarrow> children (t' ! j) = children (t ! j)"
    and "\<And>j. j < length t \<Longrightarrow> parent (t' ! j) = parent (t ! j)"
    and "wfTasks t"
  shows "wfTasks t'"
  unfolding wfTasks_def
proof (intro conjI allI impI ballI)
  fix i c assume "i < length t'" "c \<in> set (children (t' ! i))"
  with assms(1,2) have i: "i < length t" and c: "c \<in> set (children (t ! i))" by simp_all
  from wfTasks_childD [OF assms(4) i c] assms(1,3)
  show "i < c" "c < length t'" "parent (t' ! c) = Some i" by simp_all
next
  fix c p assume "c < length t'" "parent (t' ! c) = Some p"
  with assms(1,3) have c: "c < length t" and p: "parent (t ! c) = Some p" by simp_all
  from wfTasks_parentD [OF assms(4) c p] have pc: "p < c" "c \<in> set (children (t ! p))"
    by simp_all
  with c have "p < length t" by simp
  with pc assms(2) show "p < c" "c \<in> set (children (t' ! p))" by simp_all
qed

lemma wfTasks_endTime_update:
  "wfTasks tasks \<Longrightarrow> wfTasks (tasks[c := (tasks ! c)\<lparr>endTime := e\<rparr>])"
proof (cases "c < length tasks")
  case True
  assume "wfTasks tasks"
  then show ?thesis
    by (rule wfTasks_cong [rotated 3]) (simp_all add: nth_list_update True)
next
  case False
  assume "wfTasks tasks"
  with False show ?thesis by (simp add: not_less list_update_beyond)
qed

lemma ascend_terminates:
  assumes wf: "wfTasks tasks"
  shows "c < length tasks \<Longrightarrow>
         \<exists>r. ascend tasks t (Some c) = Some r \<and> (\<forall>i. r = Some i \<longrightarrow> i < length tasks)"
proof (induction c rule: less_induct)
  case (less c)
  show ?case
  proof (cases "isFinite (endTime (tasks ! c)) \<and> js_le (endTime (tasks ! c)) (Fin t)")
    case False
    then show ?thesis using less.prems by (subst ascend.simps) auto
  next
    case True
    show ?thesis
    proof (cases "parent (tasks ! c)")
      case None
      with True show ?thesis
        by (subst ascend.simps) (simp add: ascend.simps [of _ _ None])
    next
      case (Some p)
      with wf less.prems have "p < c" "p < length tasks"
        by (auto dest: wfTasks_parentD)
      from less.IH [OF this] True Some show ?thesis
        by (subst ascend.simps) simp
    qed
  qed
qed

lemma ascend_total:
  assumes "wfTasks tasks" and "\<forall>c. cur = Some c \<longrightarrow> c < length tasks"
  shows "\<exists>r. ascend tasks t cur = Some r \<and> (\<forall>i. r = Some i \<longrightarrow> i < length tasks)"
proof (cases cur)
  case None
  then show ?thesis by (simp add: ascend.simps)
next
  case (Some c)
  with assms ascend_terminates [of tasks c t] show ?thesis by simp
qed

lemma taskStep_total:
  assumes "scanInv st"
  shows "\<exists>r. taskStep other started st evt = Some r \<and> (\<forall>st'. r = Inr st' \<longrightarrow> scanInv st')"
proof -
  obtain tasks cur where st: "st = (tasks, cur)" by (cases st)
  from assms st have wf: "wfTasks tasks" and cur: "\<forall>c. cur = Some c \<longrightarrow> c < length tasks"
    by (simp_all add: scanInv_def)
  from ascend_total [OF wf cur] obtain r where
    r: "ascend tasks (ts evt) cur = Some r" and rb: "\<forall>i. r = Some i \<longrightarrow> i < length tasks"
    by blast
  have new: "scanInv (createNewTaskNode other evt r tasks, Some (length tasks))"
    unfolding scanInv_def using wfTasks_createNewTaskNode [OF wf rb] by simp
  have close: "scanInv (tasks[c := (tasks ! c)\<lparr>endTime := e\<rparr>], parent (tasks ! c))"
    if "r = Some c" for c e
  proof -
    from that rb have c: "c < length tasks" by simp
    have "\<forall>p. parent (tasks ! c) = Some p \<longrightarrow> p < length tasks"
      using wfTasks_parentD [OF wf c] c by fastforce
    then show ?thesis
      unfolding scanInv_def using wfTasks_endTime_update [OF wf] by simp
  qed
  show ?thesis
  proof (cases "pid evt \<noteq> pid started \<or> tid evt \<noteq> tid started \<or>
      (ph evt \<noteq> ''X'' \<and> ph evt \<noteq> ''B'' \<and> ph evt \<noteq> ''E'')")
    case True
    then have "taskStep other started st evt = Some (Inr st)"
      unfolding taskStep_def st by auto
    with assms show ?thesis by auto
  next
    case False
    then have on: "pid evt = pid started" "tid evt = tid started"
      and phs: "ph evt = ''X'' \<or> ph evt = ''B'' \<or> ph evt = ''E''"
      by auto
    have step: "taskStep other started st evt =
        (case r of
           None \<Rightarrow>
             if ph evt = ''E'' then Some (Inl FatalTraceLogicError)
             else Some (Inr (createNewTaskNode other evt None tasks, Some (length tasks)))
         | Some c \<Rightarrow>
             if ph evt = ''X'' \<or> ph evt = ''B''
             then Some (Inr (createNewTaskNode other evt (Some c) tasks, Some (length tasks)))
             else if ph (event (tasks ! c)) \<noteq> ''B'' then Some (Inl FatalTraceLogicError)
             else Some (Inr (tasks[c := (tasks ! c)\<lparr>endTime := Fin (ts evt)\<rparr>],
                             parent (tasks ! c))))"
      using phs by (auto simp: taskStep_def st on r)
    show ?thesis
    proof (cases r)
      case None
      with step new show ?thesis by auto
    next
      case (Some c)
      with step new close [OF Some] show ?thesis by auto
    qed
  qed
qed

lemma taskLoop_total:
  "scanInv st \<Longrightarrow>
   \<exists>r. taskLoop other started st evts = Some r \<and> (\<forall>st'. r = Inr st' \<longrightarrow> scanInv st')"
proof (induction evts arbitrary: st)
  case Nil
  then show ?case by auto
next
  case (Cons evt evts)
  from taskStep_total [OF Cons.prems, of other started evt] obtain r where
    r: "taskStep other started st evt = Some r" "\<forall>st'. r = Inr st' \<longrightarrow> scanInv st'"
    by blast
  show ?case
  proof (cases r)
    case (Inl e)
    with r show ?thesis by simp
  next
    case (Inr st')
    with r have "scanInv st'" by simp
    from Cons.IH [OF this] r Inr show ?thesis by simp
  qed
qed

lemma createTasksFromEvents_total:
  "\<exists>r. createTasksFromEvents other evs = Some r \<and> (\<forall>tasks. r = Inr tasks \<longrightarrow> wfTasks tasks)"
proof (cases "findTracingStartedEvt evs")
  case (Inl e)
  then show ?thesis by (simp add: createTasksFromEvents_def)
next
  case (Inr x)
  obtain started frameId where x: "x = (started, frameId)" by (cases x)
  have "scanInv (([] :: 'a TaskNode list), None)" by (simp add: scanInv_def wfTasks_def)
  from taskLoop_total [OF this, of other started evs] obtain r where
    r: "taskLoop other started ([], None) evs = Some r" "\<forall>st'. r = Inr st' \<longrightarrow> scanInv st'"
    by blast
  show ?thesis
  proof (cases r)
    case (Inl e)
    with r Inr x show ?thesis by (simp add: createTasksFromEvents_def)
  next
    case (Inr st')
    obtain tasks cur where "st' = (tasks, cur)" by (cases st')
    with r Inr \<open>findTracingStartedEvt evs = Inr x\<close> x show ?thesis
      by (auto simp: createTasksFromEvents_def scanInv_def)
  qed
qed

section \<open>The self-time pass\<close>

lemma agree_refl: "agree f t t"
  by (simp add: agree_def)

lemma agree_trans: "agree f t t' \<Longrightarrow> agree f t' t'' \<Longrightarrow> agree f t t''"
  by (simp add: agree_def)

lemma agree_length: "agree f t t' \<Longrightarrow> length t' = length t"
  by (simp add: agree_def)

lemma agree_nth: "agree f t t' \<Longrightarrow> j < length t \<Longrightarrow> f (t' ! j) = f (t ! j)"
  by (simp add: agree_def)

lemma agree_update:
  "f n = f (t ! i) \<Longrightarrow> agree f t (t[i := n])"
  by (cases "i < length t") (auto simp: agree_def nth_list_update list_update_beyond)

lemma treeOf_fields:
  "treeOf a = treeOf b \<Longrightarrow>
   event a = event b \<and> startTime a = startTime b \<and> endTime a = endTime b \<and>
   parent a = parent b \<and> children a = children b"
  by (simp add: treeOf_def)

lemma sameTree_fields:
  assumes "agree treeOf t t'" and "j < length t"
  shows "event (t' ! j) = event (t ! j)" and "startTime (t' ! j) = startTime (t ! j)"
    and "endTime (t' ! j) = endTime (t ! j)" and "parent (t' ! j) = parent (t ! j)"
    and "children (t' ! j) = children (t ! j)"
  using treeOf_fields [OF agree_nth [OF assms]] by simp_all

lemma descendants_range:
  assumes "wfTasks t" and "i < length t" and "j \<in> descendants t i"
  shows "i \<le> j \<and> j < length t"
  using assms(3)
proof (induction rule: descendants.induct)
  case self
  with assms(2) show ?case by simp
next
  case (child j c)
  with wfTasks_childD [OF assms(1), of j c] show ?case by simp
qed

lemma descendants_cases:
  "j \<in> descendants t i \<Longrightarrow> j = i \<or> (\<exists>c\<in>set (children (t ! i)). j \<in> descendants t c)"
proof (induction rule: descendants.induct)
  case self
  then show ?case by simp
next
  case (child j c)
  then show ?case by (auto intro: descendants.intros)
qed

lemma descendants_of_child:
  "j \<in> descendants t c \<Longrightarrow> c \<in> set (children (t ! i)) \<Longrightarrow> j \<in> descendants t i"
  by (induction rule: descendants.induct) (auto intro: descendants.intros)

lemma selfTime_Suc:
  assumes "selfTimeChildren fuel t (children (t ! i)) = Some (t1, ds)" and "i < length t1"
  shows "computeRecursiveSelfTime (Suc fuel) t i =
     Some (t1[i := (t1 ! i)\<lparr>duration := js_sub (endTime (t1 ! i)) (startTime (t1 ! i)),
                selfTime := js_sub (js_sub (endTime (t1 ! i)) (startTime (t1 ! i)))
                              (foldl js_add (Fin 0) ds)\<rparr>],
           js_sub (endTime (t1 ! i)) (startTime (t1 ! i)))"
  using assms by (simp add: Let_def)

lemma timed_update:
  assumes "agree treeOf ref t1" and "i < length ref"
  shows "timed ref (t1[i := (t1 ! i)\<lparr>duration := js_sub (endTime (t1 ! i)) (startTime (t1 ! i)),
                selfTime := js_sub (js_sub (endTime (t1 ! i)) (startTime (t1 ! i)))
                              (childSpans ref i)\<rparr>]) i"
  using sameTree_fields [OF assms] agree_length [OF assms(1)] assms(2)
  by (simp add: timed_def spanOf_def)

lemma timed_other:
  "j \<noteq> i \<Longrightarrow> timed ref (t[i := n]) j = timed ref t j"
  by (simp add: timed_def)

lemma selfTime_pass:
  assumes wf: "wfTasks ref"
  shows "agree treeOf ref t \<Longrightarrow> i < length ref \<Longrightarrow> length ref - i \<le> fuel \<Longrightarrow>
      \<exists>t'. computeRecursiveSelfTime fuel t i = Some (t', spanOf ref i) \<and>
           agree treeOf ref t' \<and> agree attributableURL t t' \<and> agree group t t' \<and>
           (\<forall>j<length ref. timed ref t j \<longrightarrow> timed ref t' j) \<and>
           (\<forall>j\<in>descendants ref i. timed ref t' j)"
    and "agree treeOf ref t \<Longrightarrow> \<forall>c\<in>set cs. c < length ref \<and> length ref - c \<le> fuel \<Longrightarrow>
      \<exists>t'. selfTimeChildren fuel t cs = Some (t', map (spanOf ref) cs) \<and>
           agree treeOf ref t' \<and> agree attributableURL t t' \<and> agree group t t' \<and>
           (\<forall>j<length ref. timed ref t j \<longrightarrow> timed ref t' j) \<and>
           (\<forall>c\<in>set cs. \<forall>j\<in>descendants ref c. timed ref t' j)"
proof (induction fuel t i and fuel t cs rule: computeRecursiveSelfTime_selfTimeChildren.induct)
  case (1 tasks task)
  then show ?case by simp
next
  case (2 fuel tasks task)
  have ch: "children (tasks ! task) = children (ref ! task)"
    using sameTree_fields(5) [OF "2.prems"(1,2)] .
  have "\<forall>c\<in>set (children (tasks ! task)). c < length ref \<and> length ref - c \<le> fuel"
    unfolding ch using wfTasks_childD [OF wf "2.prems"(2)] "2.prems"(3) by fastforce
  from "2.IH" [OF "2.prems"(1) this] obtain t1 where
    run: "selfTimeChildren fuel tasks (children (tasks ! task)) =
            Some (t1, map (spanOf ref) (children (tasks ! task)))"
    and tree: "agree treeOf ref t1" and url: "agree attributableURL tasks t1"
    and grp: "agree group tasks t1"
    and keep: "\<forall>j<length ref. timed ref tasks j \<longrightarrow> timed ref t1 j"
    and sub: "\<forall>c\<in>set (children (tasks ! task)). \<forall>j\<in>descendants ref c. timed ref t1 j"
    by blast
  have len: "task < length t1" using agree_length [OF tree] "2.prems"(2) by simp
  let ?n = "(t1 ! task)\<lparr>duration := js_sub (endTime (t1 ! task)) (startTime (t1 ! task)),
                selfTime := js_sub (js_sub (endTime (t1 ! task)) (startTime (t1 ! task)))
                              (childSpans ref task)\<rparr>"
  let ?t' = "t1[task := ?n]"
  have span: "js_sub (endTime (t1 ! task)) (startTime (t1 ! task)) = spanOf ref task"
    using sameTree_fields [OF tree "2.prems"(2)] by (simp add: spanOf_def)
  have res: "computeRecursiveSelfTime (Suc fuel) tasks task = Some (?t', spanOf ref task)"
    using selfTime_Suc [OF run len] by (simp add: childSpans_def ch span)
  have tree': "agree treeOf ref ?t'"
    by (rule agree_trans [OF tree]) (rule agree_update, simp add: treeOf_def)
  have url': "agree attributableURL tasks ?t'"
    by (rule agree_trans [OF url]) (rule agree_update, simp)
  have grp': "agree group tasks ?t'"
    by (rule agree_trans [OF grp]) (rule agree_update, simp)
  have here: "timed ref ?t' task" by (rule timed_update [OF tree "2.prems"(2)])
  have other: "timed ref t1 j \<Longrightarrow> timed ref ?t' j" for j
    using here timed_other [of j task ref t1 ?n] by (cases "j = task") simp_all
  have keep': "\<forall>j<length ref. timed ref tasks j \<longrightarrow> timed ref ?t' j"
    using keep other by blast
  have desc: "\<forall>j\<in>descendants ref task. timed ref ?t' j"
  proof
    fix j assume "j \<in> descendants ref task"
    from descendants_cases [OF this] show "timed ref ?t' j"
    proof
      assume "j = task" with here show ?thesis by simp
    next
      assume "\<exists>c\<in>set (children (ref ! task)). j \<in> descendants ref c"
      with sub ch have "timed ref t1 j" by auto
      then show ?thesis by (rule other)
    qed
  qed
  from res tree' url' grp' keep' desc show ?case by blast
next
  case (3 fuel tasks)
  then show ?case by (simp add: agree_refl)
next
  case (4 fuel tasks child rest)
  from "4.prems"(2) have c: "child < length ref" "length ref - child \<le> fuel"
    and r: "\<forall>c\<in>set rest. c < length ref \<and> length ref - c \<le> fuel"
    by simp_all
  from "4.IH"(1) [OF "4.prems"(1) c] obtain t1 where
    run1: "computeRecursiveSelfTime fuel tasks child = Some (t1, spanOf ref child)"
    and tree1: "agree treeOf ref t1" and url1: "agree attributableURL tasks t1"
    and grp1: "agree group tasks t1"
    and keep1: "\<forall>j<length ref. timed ref tasks j \<longrightarrow> timed ref t1 j"
    and sub1: "\<forall>j\<in>descendants ref child. timed ref t1 j"
    by blast
  from "4.IH"(2) [OF run1 refl tree1 r] obtain t2 where
    run2: "selfTimeChildren fuel t1 rest = Some (t2, map (spanOf ref) rest)"
    and tree2: "agree treeOf ref t2" and url2: "agree attributableURL t1 t2"
    and grp2: "agree group t1 t2"
    and keep2: "\<forall>j<length ref. timed ref t1 j \<longrightarrow> timed ref t2 j"
    and sub2: "\<forall>c\<in>set rest. \<forall>j\<in>descendants ref c. timed ref t2 j"
    by blast
  have res: "selfTimeChildren fuel tasks (child # rest) = Some (t2, map (spanOf ref) (child # rest))"
    by (simp add: run1 run2)
  have d1: "\<forall>j\<in>descendants ref child. timed ref t2 j"
    using sub1 keep2 descendants_range [OF wf c(1)] by blast
  from res tree2 agree_trans [OF url1 url2] agree_trans [OF grp1 grp2] keep1 keep2 d1 sub2
  show ?case by auto
qed

section \<open>The URL pass\<close>

lemma urlResolved_frame:
  assumes wf: "wfTasks ref" and t: "agree treeOf ref t" and t': "agree treeOf ref t'"
    and j: "j < length ref" and res: "urlResolved t j" and same: "t' ! j = t ! j"
    and par: "\<And>p. parent (ref ! j) = Some p \<Longrightarrow> t' ! p = t ! p"
  shows "urlResolved t' j"
proof (cases "parent (ref ! j)")
  case None
  with res same sameTree_fields(4) [OF t j] show ?thesis
    by (simp add: urlResolved_def)
next
  case (Some p)
  with res same par [OF Some] sameTree_fields(4) [OF t j] show ?thesis
    by (simp add: urlResolved_def)
qed

lemma not_descendant_of_later:
  assumes "wfTasks ref" and "c < length ref" and "i < c"
  shows "i \<notin> descendants ref c"
  using descendants_range [OF assms(1,2), of i] assms(3) by auto

lemma attributableURL_pass:
  assumes wf: "wfTasks ref"
  shows "agree treeOf ref t \<Longrightarrow> i < length ref \<Longrightarrow> length ref - i \<le> fuel \<Longrightarrow>
      \<exists>t'. computeRecursiveAttributableURL fuel t i pu = Some t' \<and>
           agree treeOf ref t' \<and> agree timesOf t t' \<and> agree group t t' \<and>
           attributableURL (t' ! i) = js_or pu (taskURL (event (ref ! i))) \<and>
           (\<forall>j<length ref. j \<notin> descendants ref i \<longrightarrow> t' ! j = t ! j) \<and>
           (\<forall>j\<in>descendants ref i. j \<noteq> i \<longrightarrow> urlResolved t' j)"
    and "agree treeOf ref t \<Longrightarrow> i < length ref \<Longrightarrow> set cs \<subseteq> set (children (ref ! i)) \<Longrightarrow>
         length ref - i \<le> Suc fuel \<Longrightarrow>
      \<exists>t'. attributableURLChildren fuel t i cs = Some t' \<and>
           agree treeOf ref t' \<and> agree timesOf t t' \<and> agree group t t' \<and>
           (\<forall>j<length ref. (\<forall>c\<in>set cs. j \<notin> descendants ref c) \<longrightarrow> t' ! j = t ! j) \<and>
           (\<forall>c\<in>set cs. \<forall>j\<in>descendants ref c. urlResolved t' j)"
proof (induction fuel t i pu and fuel t i cs
    rule: computeRecursiveAttributableURL_attributableURLChildren.induct)
  case (1 tasks task parentURL)
  then show ?case by simp
next
  case (2 fuel tasks task parentURL)
  let ?u = "js_or parentURL (taskURL (event (tasks ! task)))"
  let ?t0 = "tasks[task := (tasks ! task)\<lparr>attributableURL := ?u\<rparr>]"
  have len: "task < length tasks" using agree_length [OF "2.prems"(1)] "2.prems"(2) by simp
  have tree0: "agree treeOf ref ?t0"
    by (rule agree_trans [OF "2.prems"(1)]) (rule agree_update, simp add: treeOf_def)
  have times0: "agree timesOf tasks ?t0" by (rule agree_update) (simp add: timesOf_def)
  have grp0: "agree group tasks ?t0" by (rule agree_update) simp
  have ch: "children (?t0 ! task) = children (ref ! task)"
    using sameTree_fields(5) [OF tree0 "2.prems"(2)] .
  have ev: "event (tasks ! task) = event (ref ! task)"
    using sameTree_fields(1) [OF "2.prems"(1,2)] .
  have "set (children (?t0 ! task)) \<subseteq> set (children (ref ! task))" by (simp only: ch)
  from "2.IH" [OF refl tree0 "2.prems"(2) this] "2.prems"(3) obtain t' where
    run: "attributableURLChildren fuel ?t0 task (children (?t0 ! task)) = Some t'"
    and tree: "agree treeOf ref t'" and times: "agree timesOf ?t0 t'" and grp: "agree group ?t0 t'"
    and frame: "\<forall>j<length ref. (\<forall>c\<in>set (children (?t0 ! task)). j \<notin> descendants ref c) \<longrightarrow>
                  t' ! j = ?t0 ! j"
    and sub: "\<forall>c\<in>set (children (?t0 ! task)). \<forall>j\<in>descendants ref c. urlResolved t' j"
    by auto
  have res: "computeRecursiveAttributableURL (Suc fuel) tasks task parentURL = Some t'"
    using run by (simp add: Let_def)
  have "\<forall>c\<in>set (children (ref ! task)). task \<notin> descendants ref c"
    using wfTasks_childD [OF wf "2.prems"(2)] not_descendant_of_later [OF wf] by blast
  with frame ch "2.prems"(2) have "t' ! task = ?t0 ! task" by metis
  with len ev have here: "attributableURL (t' ! task) = js_or parentURL (taskURL (event (ref ! task)))"
    by simp
  have fr: "\<forall>j<length ref. j \<notin> descendants ref task \<longrightarrow> t' ! j = tasks ! j"
  proof (intro allI impI)
    fix j assume j: "j < length ref" and nd: "j \<notin> descendants ref task"
    then have "j \<noteq> task" by (auto intro: descendants.self)
    moreover have "\<forall>c\<in>set (children (?t0 ! task)). j \<notin> descendants ref c"
      unfolding ch using nd descendants_of_child by blast
    ultimately have "t' ! j = ?t0 ! j" "j \<noteq> task" using frame j by blast+
    then show "t' ! j = tasks ! j" by simp
  qed
  have ds: "\<forall>j\<in>descendants ref task. j \<noteq> task \<longrightarrow> urlResolved t' j"
  proof (intro ballI impI)
    fix j assume "j \<in> descendants ref task" "j \<noteq> task"
    with descendants_cases [of j ref task] obtain c where
      "c \<in> set (children (ref ! task))" "j \<in> descendants ref c" by blast
    with sub show "urlResolved t' j" unfolding ch by blast
  qed
  from res tree agree_trans [OF times0 times] agree_trans [OF grp0 grp] here fr ds
  show ?case by blast
next
  case (3 fuel tasks task)
  then show ?case by (simp add: agree_refl)
next
  case (4 fuel tasks task child rest)
  from "4.prems"(3) have cin: "child \<in> set (children (ref ! task))"
    and rin: "set rest \<subseteq> set (children (ref ! task))" by simp_all
  from wfTasks_childD [OF wf "4.prems"(2) cin]
  have c: "task < child" "child < length ref" "parent (ref ! child) = Some task" by simp_all
  with "4.prems"(4) have fuel: "length ref - child \<le> fuel" by simp
  from "4.IH"(1) [OF "4.prems"(1) c(2) fuel] obtain t1 where
    run1: "computeRecursiveAttributableURL fuel tasks child (attributableURL (tasks ! task)) = Some t1"
    and tree1: "agree treeOf ref t1" and times1: "agree timesOf tasks t1"
    and grp1: "agree group tasks t1"
    and here1: "attributableURL (t1 ! child) =
                  js_or (attributableURL (tasks ! task)) (taskURL (event (ref ! child)))"
    and frame1: "\<forall>j<length ref. j \<notin> descendants ref child \<longrightarrow> t1 ! j = tasks ! j"
    and sub1: "\<forall>j\<in>descendants ref child. j \<noteq> child \<longrightarrow> urlResolved t1 j"
    by blast
  from "4.IH"(2) [OF run1 tree1 "4.prems"(2) rin "4.prems"(4)] obtain t2 where
    run2: "attributableURLChildren fuel t1 task rest = Some t2"
    and tree2: "agree treeOf ref t2" and times2: "agree timesOf t1 t2"
    and grp2: "agree group t1 t2"
    and frame2: "\<forall>j<length ref. (\<forall>c\<in>set rest. j \<notin> descendants ref c) \<longrightarrow> t2 ! j = t1 ! j"
    and sub2: "\<forall>c\<in>set rest. \<forall>j\<in>descendants ref c. urlResolved t2 j"
    by blast
  have res: "attributableURLChildren fuel tasks task (child # rest) = Some t2"
    by (simp add: run1 run2)
  have "task \<notin> descendants ref child" by (rule not_descendant_of_later [OF wf c(2,1)])
  with frame1 "4.prems"(2) have same: "t1 ! task = tasks ! task" by blast
  have "urlResolved t1 child"
    using here1 same sameTree_fields(1,4) [OF tree1 c(2)] c(3) by (simp add: urlResolved_def)
  have all1: "\<forall>j\<in>descendants ref child. urlResolved t1 j"
  proof
    fix j assume "j \<in> descendants ref child"
    with sub1 \<open>urlResolved t1 child\<close> show "urlResolved t1 j" by (cases "j = child") simp_all
  qed
  have all2: "\<forall>j\<in>descendants ref child. urlResolved t2 j"
  proof
    fix j assume jd: "j \<in> descendants ref child"
    with descendants_range [OF wf c(2)] have j: "j < length ref" by simp
    show "urlResolved t2 j"
    proof (cases "\<exists>c\<in>set rest. j \<in> descendants ref c")
      case True
      with sub2 show ?thesis by blast
    next
      case False
      with frame2 j have sj: "t2 ! j = t1 ! j" by blast
      have "t2 ! p = t1 ! p" if p: "parent (ref ! j) = Some p" for p
      proof -
        from wfTasks_parentD [OF wf j p] have pj: "p < j" "j \<in> set (children (ref ! p))"
          by simp_all
        have "\<forall>c\<in>set rest. p \<notin> descendants ref c"
          using False pj(2) descendants.child by blast
        moreover from pj(1) j have "p < length ref" by simp
        ultimately show ?thesis using frame2 by blast
      qed
      with urlResolved_frame [OF wf tree1 tree2 j _ sj] all1 jd show ?thesis by blast
    qed
  qed
  have fr: "\<forall>j<length ref. (\<forall>c\<in>set (child # rest). j \<notin> descendants ref c) \<longrightarrow> t2 ! j = tasks ! j"
  proof (intro allI impI)
    fix j assume j: "j < length ref" and nd: "\<forall>c\<in>set (child # rest). j \<notin> descendants ref c"
    then have "t2 ! j = t1 ! j" using frame2 by simp
    moreover from j nd have "t1 ! j = tasks ! j" using frame1 by simp
    ultimately show "t2 ! j = tasks ! j" by simp
  qed
  from res tree2 agree_trans [OF times1 times2] agree_trans [OF grp1 grp2] fr all2 sub2
  show ?case by simp
qed

section \<open>The group pass\<close>

lemma groupResolved_frame:
  assumes wf: "wfTasks ref" and t: "agree treeOf ref t" and t': "agree treeOf ref t'"
    and j: "j < length ref" and res: "groupResolved tbl other t j" and same: "t' ! j = t ! j"
    and par: "\<And>p. parent (ref ! j) = Some p \<Longrightarrow> t' ! p = t ! p"
  shows "groupResolved tbl other t' j"
proof (cases "parent (ref ! j)")
  case None
  with res same sameTree_fields(4) [OF t j] show ?thesis
    by (simp add: groupResolved_def cong: option.case_cong)
next
  case (Some p)
  with res same par [OF Some] sameTree_fields(4) [OF t j] show ?thesis
    by (simp add: groupResolved_def cong: option.case_cong)
qed

lemma taskGroup_pass:
  assumes wf: "wfTasks ref"
  shows "agree treeOf ref t \<Longrightarrow> i < length ref \<Longrightarrow> length ref - i \<le> fuel \<Longrightarrow>
      \<exists>t'. computeRecursiveTaskGroup fuel tbl other t i pg = Some t' \<and>
           agree treeOf ref t' \<and> agree timesOf t t' \<and> agree attributableURL t t' \<and>
           group (t' ! i) = (case tbl (name (event (ref ! i))) of Some x \<Rightarrow> x
               | None \<Rightarrow> (case pg of Some x \<Rightarrow> x | None \<Rightarrow> other)) \<and>
           (\<forall>j<length ref. j \<notin> descendants ref i \<longrightarrow> t' ! j = t ! j) \<and>
           (\<forall>j\<in>descendants ref i. j \<noteq> i \<longrightarrow> groupResolved tbl other t' j)"
    and "agree treeOf ref t \<Longrightarrow> i < length ref \<Longrightarrow> set cs \<subseteq> set (children (ref ! i)) \<Longrightarrow>
         length ref - i \<le> Suc fuel \<Longrightarrow>
      \<exists>t'. taskGroupChildren fuel tbl other t i cs = Some t' \<and>
           agree treeOf ref t' \<and> agree timesOf t t' \<and> agree attributableURL t t' \<and>
           (\<forall>j<length ref. (\<forall>c\<in>set cs. j \<notin> descendants ref c) \<longrightarrow> t' ! j = t ! j) \<and>
           (\<forall>c\<in>set cs. \<forall>j\<in>descendants ref c. groupResolved tbl other t' j)"
proof (induction fuel tbl other t i pg and fuel tbl other t i cs
    rule: computeRecursiveTaskGroup_taskGroupChildren.induct)
  case (1 tbl other tasks task parentGroup)
  then show ?case by simp
next
  case (2 fuel tbl other tasks task parentGroup)
  let ?u = "case tbl (name (event (tasks ! task))) of Some x \<Rightarrow> x
      | None \<Rightarrow> (case parentGroup of Some x \<Rightarrow> x | None \<Rightarrow> other)"
  let ?t0 = "tasks[task := (tasks ! task)\<lparr>group := ?u\<rparr>]"
  have len: "task < length tasks" using agree_length [OF "2.prems"(1)] "2.prems"(2) by simp
  have tree0: "agree treeOf ref ?t0"
    by (rule agree_trans [OF "2.prems"(1)]) (rule agree_update, simp add: treeOf_def)
  have times0: "agree timesOf tasks ?t0" by (rule agree_update) (simp add: timesOf_def)
  have grp0: "agree attributableURL tasks ?t0" by (rule agree_update) simp
  have ch: "children (?t0 ! task) = children (ref ! task)"
    using sameTree_fields(5) [OF tree0 "2.prems"(2)] .
  have ev: "event (tasks ! task) = event (ref ! task)"
    using sameTree_fields(1) [OF "2.prems"(1,2)] .
  have "set (children (?t0 ! task)) \<subseteq> set (children (ref ! task))" by (simp only: ch)
  from "2.IH" [OF refl refl tree0 "2.prems"(2) this] "2.prems"(3) obtain t' where
    run: "taskGroupChildren fuel tbl other ?t0 task (children (?t0 ! task)) = Some t'"
    and tree: "agree treeOf ref t'" and times: "agree timesOf ?t0 t'" and grp: "agree attributableURL ?t0 t'"
    and frame: "\<forall>j<length ref. (\<forall>c\<in>set (children (?t0 ! task)). j \<notin> descendants ref c) \<longrightarrow>
                  t' ! j = ?t0 ! j"
    and sub: "\<forall>c\<in>set (children (?t0 ! task)). \<forall>j\<in>descendants ref c. groupResolved tbl other t' j"
    by auto
  have res: "computeRecursiveTaskGroup (Suc fuel) tbl other tasks task parentGroup = Some t'"
    using run by (simp add: Let_def)
  have "\<forall>c\<in>set (children (ref ! task)). task \<notin> descendants ref c"
    using wfTasks_childD [OF wf "2.prems"(2)] not_descendant_of_later [OF wf] by blast
  with frame ch "2.prems"(2) have "t' ! task = ?t0 ! task" by metis
  with len ev have here: "group (t' ! task) = (case tbl (name (event (ref ! task))) of Some x \<Rightarrow> x
      | None \<Rightarrow> (case parentGroup of Some x \<Rightarrow> x | None \<Rightarrow> other))"
    by simp
  have fr: "\<forall>j<length ref. j \<notin> descendants ref task \<longrightarrow> t' ! j = tasks ! j"
  proof (intro allI impI)
    fix j assume j: "j < length ref" and nd: "j \<notin> descendants ref task"
    then have "j \<noteq> task" by (auto intro: descendants.self)
    moreover have "\<forall>c\<in>set (children (?t0 ! task)). j \<notin> descendants ref c"
      unfolding ch using nd descendants_of_child by blast
    ultimately have "t' ! j = ?t0 ! j" "j \<noteq> task" using frame j by blast+
    then show "t' ! j = tasks ! j" by simp
  qed
  have ds: "\<forall>j\<in>descendants ref task. j \<noteq> task \<longrightarrow> groupResolved tbl other t' j"
  proof (intro ballI impI)
    fix j assume "j \<in> descendants ref task" "j \<noteq> task"
    with descendants_cases [of j ref task] obtain c where
      "c \<in> set (children (ref ! task))" "j \<in> descendants ref c" by blast
    with sub show "groupResolved tbl other t' j" unfolding ch by blast
  qed
  from res tree agree_trans [OF times0 times] agree_trans [OF grp0 grp] here fr ds
  show ?case by blast
next
  case (3 fuel tbl other tasks task)
  then show ?case by (simp add: agree_refl)
next
  case (4 fuel tbl other tasks task child rest)
  from "4.prems"(3) have cin: "child \<in> set (children (ref ! task))"
    and rin: "set rest \<subseteq> set (children (ref ! task))" by simp_all
  from wfTasks_childD [OF wf "4.prems"(2) cin]
  have c: "task < child" "child < length ref" "parent (ref ! child) = Some task" by simp_all
  with "4.prems"(4) have fuel: "length ref - child \<le> fuel" by simp
  from "4.IH"(1) [OF "4.prems"(1) c(2) fuel] obtain t1 where
    run1: "computeRecursiveTaskGroup fuel tbl other tasks child (Some (group (tasks ! task))) = Some t1"
    and tree1: "agree treeOf ref t1" and times1: "agree timesOf tasks t1"
    and grp1: "agree attributableURL tasks t1"
    and here1: "group (t1 ! child) = (case tbl (name (event (ref ! child))) of Some x \<Rightarrow> x
                  | None \<Rightarrow> (case Some (group (tasks ! task)) of Some x \<Rightarrow> x | None \<Rightarrow> other))"
    and frame1: "\<forall>j<length ref. j \<notin> descendants ref child \<longrightarrow> t1 ! j = tasks ! j"
    and sub1: "\<forall>j\<in>descendants ref child. j \<noteq> child \<longrightarrow> groupResolved tbl other t1 j"
    by blast
  from "4.IH"(2) [OF run1 tree1 "4.prems"(2) rin "4.prems"(4)] obtain t2 where
    run2: "taskGroupChildren fuel tbl other t1 task rest = Some t2"
    and tree2: "agree treeOf ref t2" and times2: "agree timesOf t1 t2"
    and grp2: "agree attributableURL t1 t2"
    and frame2: "\<forall>j<length ref. (\<forall>c\<in>set rest. j \<notin> descendants ref c) \<longrightarrow> t2 ! j = t1 ! j"
    and sub2: "\<forall>c\<in>set rest. \<forall>j\<in>descendants ref c. groupResolved tbl other t2 j"
    by blast
  have res: "taskGroupChildren fuel tbl other tasks task (child # rest) = Some t2"
    by (simp add: run1 run2)
  have "task \<notin> descendants ref child" by (rule not_descendant_of_later [OF wf c(2,1)])
  with frame1 "4.prems"(2) have same: "t1 ! task = tasks ! task" by blast
  have "groupResolved tbl other t1 child"
    using here1 same sameTree_fields(1,4) [OF tree1 c(2)] c(3) by (simp add: groupResolved_def cong: option.case_cong)
  have all1: "\<forall>j\<in>descendants ref child. groupResolved tbl other t1 j"
  proof
    fix j assume "j \<in> descendants ref child"
    with sub1 \<open>groupResolved tbl other t1 child\<close> show "groupResolved tbl other t1 j" by (cases "j = child") simp_all
  qed
  have all2: "\<forall>j\<in>descendants ref child. groupResolved tbl other t2 j"
  proof
    fix j assume jd: "j \<in> descendants ref child"
    with descendants_range [OF wf c(2)] have j: "j < length ref" by simp
    show "groupResolved tbl other t2 j"
    proof (cases "\<exists>c\<in>set rest. j \<in> descendants ref c")
      case True
      with sub2 show ?thesis by blast
    next
      case False
      with frame2 j have sj: "t2 ! j = t1 ! j" by blast
      have "t2 ! p = t1 ! p" if p: "parent (ref ! j) = Some p" for p
      proof -
        from wfTasks_parentD [OF wf j p] have pj: "p < j" "j \<in> set (children (ref ! p))"
          by simp_all
        have "\<forall>c\<in>set rest. p \<notin> descendants ref c"
          using False pj(2) descendants.child by blast
        moreover from pj(1) j have "p < length ref" by simp
        ultimately show ?thesis using frame2 by blast
      qed
      with groupResolved_frame [OF wf tree1 tree2 j _ sj] all1 jd show ?thesis by blast
    qed
  qed
  have fr: "\<forall>j<length ref. (\<forall>c\<in>set (child # rest). j \<notin> descendants ref c) \<longrightarrow> t2 ! j = tasks ! j"
  proof (intro allI impI)
    fix j assume j: "j < length ref" and nd: "\<forall>c\<in>set (child # rest). j \<notin> descendants ref c"
    then have "t2 ! j = t1 ! j" using frame2 by simp
    moreover from j nd have "t1 ! j = tasks ! j" using frame1 by simp
    ultimately show "t2 ! j = tasks ! j" by simp
  qed
  from res tree2 agree_trans [OF times1 times2] agree_trans [OF grp1 grp2] fr all2 sub2
  show ?case by simp
qed

section \<open>The loop over the roots\<close>

lemma timed_agree:
  "agree timesOf t t' \<Longrightarrow> j < length t \<Longrightarrow> timed ref t j \<Longrightarrow> timed ref t' j"
  using agree_nth [of timesOf t t' j] by (simp add: timed_def timesOf_def)

lemma urlResolved_agree:
  assumes wf: "wfTasks ref" and t: "agree treeOf ref t" and t': "agree treeOf ref t'"
    and a: "agree attributableURL t t'" and j: "j < length ref" and res: "urlResolved t j"
  shows "urlResolved t' j"
proof -
  have l: "length t = length ref" using agree_length [OF t] .
  have e: "event (t' ! j) = event (t ! j)" "parent (t' ! j) = parent (t ! j)"
    "parent (t ! j) = parent (ref ! j)"
    using sameTree_fields [OF t j] sameTree_fields [OF t' j] by simp_all
  have u: "attributableURL (t' ! j) = attributableURL (t ! j)"
    using agree_nth [OF a] j l by simp
  show ?thesis
  proof (cases "parent (ref ! j)")
    case None
    with res e u show ?thesis by (simp add: urlResolved_def)
  next
    case (Some p)
    from wfTasks_parentD [OF wf j Some] j have "p < length t" using l by simp
    from agree_nth [OF a this] res e u Some show ?thesis by (simp add: urlResolved_def)
  qed
qed

lemma groupResolved_agree:
  assumes wf: "wfTasks ref" and t: "agree treeOf ref t" and t': "agree treeOf ref t'"
    and a: "agree group t t'" and j: "j < length ref" and res: "groupResolved tbl other t j"
  shows "groupResolved tbl other t' j"
proof -
  have l: "length t = length ref" using agree_length [OF t] .
  have e: "event (t' ! j) = event (t ! j)" "parent (t' ! j) = parent (t ! j)"
    "parent (t ! j) = parent (ref ! j)"
    using sameTree_fields [OF t j] sameTree_fields [OF t' j] by simp_all
  have u: "group (t' ! j) = group (t ! j)"
    using agree_nth [OF a] j l by simp
  show ?thesis
  proof (cases "parent (ref ! j)")
    case None
    with res e u show ?thesis by (simp add: groupResolved_def cong: option.case_cong)
  next
    case (Some p)
    from wfTasks_parentD [OF wf j Some] j have "p < length t" using l by simp
    from agree_nth [OF a this] res e u Some show ?thesis
      by (simp add: groupResolved_def cong: option.case_cong)
  qed
qed

lemma parent_not_descendant:
  assumes wf: "wfTasks ref" and j: "j < length ref" and nd: "j \<notin> descendants ref r"
    and p: "parent (ref ! j) = Some p"
  shows "p \<notin> descendants ref r \<and> p < length ref"
proof -
  from wfTasks_parentD [OF wf j p] have pj: "p < j" "j \<in> set (children (ref ! p))" by simp_all
  with nd descendants.child [of p ref r j] j show ?thesis by auto
qed

lemma url_root_pass:
  assumes wf: "wfTasks ref" and tree: "agree treeOf ref t" and r: "r < length ref"
    and root: "parent (ref ! r) = None" and fuel: "length ref - r \<le> fuel"
  shows "\<exists>t'. computeRecursiveAttributableURL fuel t r None = Some t' \<and>
           agree treeOf ref t' \<and> agree timesOf t t' \<and> agree group t t' \<and>
           (\<forall>j<length ref. j \<in> descendants ref r \<or> urlResolved t j \<longrightarrow> urlResolved t' j)"
proof -
  from attributableURL_pass(1) [OF wf tree r fuel, of None] obtain t' where
    run: "computeRecursiveAttributableURL fuel t r None = Some t'"
    and tree': "agree treeOf ref t'" and times: "agree timesOf t t'" and grp: "agree group t t'"
    and here: "attributableURL (t' ! r) = js_or None (taskURL (event (ref ! r)))"
    and frame: "\<forall>j<length ref. j \<notin> descendants ref r \<longrightarrow> t' ! j = t ! j"
    and sub: "\<forall>j\<in>descendants ref r. j \<noteq> r \<longrightarrow> urlResolved t' j"
    by blast
  have rr: "urlResolved t' r"
    using here sameTree_fields(1,4) [OF tree' r] root by (simp add: urlResolved_def)
  have "urlResolved t' j" if j: "j < length ref" and h: "j \<in> descendants ref r \<or> urlResolved t j"
    for j
  proof (cases "j \<in> descendants ref r")
    case True
    with sub rr show ?thesis by (cases "j = r") simp_all
  next
    case False
    with h have res: "urlResolved t j" by simp
    from False frame j have sj: "t' ! j = t ! j" by blast
    have "t' ! p = t ! p" if "parent (ref ! j) = Some p" for p
      using parent_not_descendant [OF wf j False that] frame by blast
    with urlResolved_frame [OF wf tree tree' j res sj] show ?thesis by blast
  qed
  with run tree' times grp show ?thesis by blast
qed

lemma group_root_pass:
  assumes wf: "wfTasks ref" and tree: "agree treeOf ref t" and r: "r < length ref"
    and root: "parent (ref ! r) = None" and fuel: "length ref - r \<le> fuel"
  shows "\<exists>t'. computeRecursiveTaskGroup fuel tbl other t r None = Some t' \<and>
           agree treeOf ref t' \<and> agree timesOf t t' \<and> agree attributableURL t t' \<and>
           (\<forall>j<length ref. j \<in> descendants ref r \<or> groupResolved tbl other t j \<longrightarrow>
              groupResolved tbl other t' j)"
proof -
  from taskGroup_pass(1) [OF wf tree r fuel, of tbl other None] obtain t' where
    run: "computeRecursiveTaskGroup fuel tbl other t r None = Some t'"
    and tree': "agree treeOf ref t'" and times: "agree timesOf t t'"
    and url: "agree attributableURL t t'"
    and here: "group (t' ! r) = (case tbl (name (event (ref ! r))) of Some x \<Rightarrow> x
                 | None \<Rightarrow> (case None of Some x \<Rightarrow> x | None \<Rightarrow> other))"
    and frame: "\<forall>j<length ref. j \<notin> descendants ref r \<longrightarrow> t' ! j = t ! j"
    and sub: "\<forall>j\<in>descendants ref r. j \<noteq> r \<longrightarrow> groupResolved tbl other t' j"
    by blast
  have rr: "groupResolved tbl other t' r"
    using here sameTree_fields(1,4) [OF tree' r] root
    by (simp add: groupResolved_def cong: option.case_cong)
  have "groupResolved tbl other t' j"
    if j: "j < length ref" and h: "j \<in> descendants ref r \<or> groupResolved tbl other t j" for j
  proof (cases "j \<in> descendants ref r")
    case True
    with sub rr show ?thesis by (cases "j = r") simp_all
  next
    case False
    with h have res: "groupResolved tbl other t j" by simp
    from False frame j have sj: "t' ! j = t ! j" by blast
    have "t' ! p = t ! p" if "parent (ref ! j) = Some p" for p
      using parent_not_descendant [OF wf j False that] frame by blast
    with groupResolved_frame [OF wf tree tree' j res sj] show ?thesis by blast
  qed
  with run tree' times url show ?thesis by blast
qed

lemma root_passes:
  assumes wf: "wfTasks ref" and tree: "agree treeOf ref t" and r: "r < length ref"
    and root: "parent (ref ! r) = None" and fuel: "length ref \<le> fuel"
  shows "\<exists>t1 d t2 t3. computeRecursiveSelfTime fuel t r = Some (t1, d) \<and>
           computeRecursiveAttributableURL fuel t1 r None = Some t2 \<and>
           computeRecursiveTaskGroup fuel tbl other t2 r None = Some t3 \<and>
           agree treeOf ref t3 \<and>
           (\<forall>j<length ref. j \<in> descendants ref r \<or> resolved tbl other ref t j \<longrightarrow>
              resolved tbl other ref t3 j)"
proof -
  from fuel have f: "length ref - r \<le> fuel" by simp
  from selfTime_pass(1) [OF wf tree r f] obtain t1 where
    run1: "computeRecursiveSelfTime fuel t r = Some (t1, spanOf ref r)"
    and tree1: "agree treeOf ref t1" and url1: "agree attributableURL t t1"
    and grp1: "agree group t t1"
    and keep1: "\<forall>j<length ref. timed ref t j \<longrightarrow> timed ref t1 j"
    and sub1: "\<forall>j\<in>descendants ref r. timed ref t1 j"
    by blast
  from url_root_pass [OF wf tree1 r root f] obtain t2 where
    run2: "computeRecursiveAttributableURL fuel t1 r None = Some t2"
    and tree2: "agree treeOf ref t2" and times2: "agree timesOf t1 t2"
    and grp2: "agree group t1 t2"
    and res2: "\<forall>j<length ref. j \<in> descendants ref r \<or> urlResolved t1 j \<longrightarrow> urlResolved t2 j"
    by blast
  from group_root_pass [OF wf tree2 r root f, of tbl other] obtain t3 where
    run3: "computeRecursiveTaskGroup fuel tbl other t2 r None = Some t3"
    and tree3: "agree treeOf ref t3" and times3: "agree timesOf t2 t3"
    and url3: "agree attributableURL t2 t3"
    and res3: "\<forall>j<length ref. j \<in> descendants ref r \<or> groupResolved tbl other t2 j \<longrightarrow>
                 groupResolved tbl other t3 j"
    by blast
  have l1: "length t1 = length ref" and l2: "length t2 = length ref"
    using agree_length [OF tree1] agree_length [OF tree2] by simp_all
  have "resolved tbl other ref t3 j"
    if j: "j < length ref" and h: "j \<in> descendants ref r \<or> resolved tbl other ref t j" for j
  proof -
    have "timed ref t1 j" using h sub1 keep1 j by (auto simp: resolved_def)
    then have "timed ref t2 j" using timed_agree [OF times2] j l1 by simp
    then have a: "timed ref t3 j" using timed_agree [OF times3] j l2 by simp
    have "j \<in> descendants ref r \<or> urlResolved t1 j"
      using h urlResolved_agree [OF wf tree tree1 url1 j] by (auto simp: resolved_def)
    with res2 j have "urlResolved t2 j" by blast
    then have b: "urlResolved t3 j" by (rule urlResolved_agree [OF wf tree2 tree3 url3 j])
    have "j \<in> descendants ref r \<or> groupResolved tbl other t1 j"
      using h groupResolved_agree [OF wf tree tree1 grp1 j] by (auto simp: resolved_def)
    then have "j \<in> descendants ref r \<or> groupResolved tbl other t2 j"
      using groupResolved_agree [OF wf tree1 tree2 grp2 j] by blast
    with res3 j have c: "groupResolved tbl other t3 j" by blast
    from a b c show ?thesis by (simp add: resolved_def)
  qed
  with run1 run2 run3 tree3 show ?thesis by blast
qed

lemma metricsLoop_pass:
  assumes wf: "wfTasks ref" and fuel: "length ref \<le> fuel"
  shows "agree treeOf ref t \<Longrightarrow> \<forall>r\<in>set rs. r < length ref \<Longrightarrow>
      \<exists>t'. metricsLoop fuel tbl other t rs = Some t' \<and> agree treeOf ref t' \<and>
           (\<forall>j<length ref.
              (\<exists>r\<in>set rs. parent (ref ! r) = None \<and> j \<in> descendants ref r) \<or>
              resolved tbl other ref t j \<longrightarrow> resolved tbl other ref t' j)"
proof (induction rs arbitrary: t)
  case Nil
  then show ?case by simp
next
  case (Cons r rs)
  from Cons.prems(2) have r: "r < length ref" and rs: "\<forall>r\<in>set rs. r < length ref" by simp_all
  have par: "parent (t ! r) = parent (ref ! r)" using sameTree_fields(4) [OF Cons.prems(1) r] .
  show ?case
  proof (cases "parent (ref ! r)")
    case (Some p)
    from Cons.IH [OF Cons.prems(1) rs] obtain t' where
      run: "metricsLoop fuel tbl other t rs = Some t'" and tree: "agree treeOf ref t'"
      and res: "\<forall>j<length ref.
              (\<exists>r\<in>set rs. parent (ref ! r) = None \<and> j \<in> descendants ref r) \<or>
              resolved tbl other ref t j \<longrightarrow> resolved tbl other ref t' j"
      by blast
    have "metricsLoop fuel tbl other t (r # rs) = Some t'" using run par Some by simp
    moreover have "\<forall>j<length ref.
              (\<exists>r\<in>set (r # rs). parent (ref ! r) = None \<and> j \<in> descendants ref r) \<or>
              resolved tbl other ref t j \<longrightarrow> resolved tbl other ref t' j"
      using res Some by auto
    ultimately show ?thesis using tree by blast
  next
    case None
    from root_passes [OF wf Cons.prems(1) r None fuel, of tbl other] obtain t1 d t2 t3 where
      run1: "computeRecursiveSelfTime fuel t r = Some (t1, d)"
      and run2: "computeRecursiveAttributableURL fuel t1 r None = Some t2"
      and run3: "computeRecursiveTaskGroup fuel tbl other t2 r None = Some t3"
      and tree3: "agree treeOf ref t3"
      and res3: "\<forall>j<length ref. j \<in> descendants ref r \<or> resolved tbl other ref t j \<longrightarrow>
              resolved tbl other ref t3 j"
      by blast
    from Cons.IH [OF tree3 rs] obtain t' where
      run: "metricsLoop fuel tbl other t3 rs = Some t'" and tree: "agree treeOf ref t'"
      and res: "\<forall>j<length ref.
              (\<exists>r\<in>set rs. parent (ref ! r) = None \<and> j \<in> descendants ref r) \<or>
              resolved tbl other ref t3 j \<longrightarrow> resolved tbl other ref t' j"
      by blast
    have "metricsLoop fuel tbl other t (r # rs) = Some t'"
      using run run1 run2 run3 par None by simp
    moreover have "\<forall>j<length ref.
              (\<exists>r\<in>set (r # rs). parent (ref ! r) = None \<and> j \<in> descendants ref r) \<or>
              resolved tbl other ref t j \<longrightarrow> resolved tbl other ref t' j"
    proof (intro allI impI)
      fix j assume j: "j < length ref"
        and h: "(\<exists>r\<in>set (r # rs). parent (ref ! r) = None \<and> j \<in> descendants ref r) \<or>
              resolved tbl other ref t j"
      then have "(\<exists>r\<in>set rs. parent (ref ! r) = None \<and> j \<in> descendants ref r) \<or>
          j \<in> descendants ref r \<or> resolved tbl other ref t j" by auto
      with res3 j have "(\<exists>r\<in>set rs. parent (ref ! r) = None \<and> j \<in> descendants ref r) \<or>
          resolved tbl other ref t3 j" by blast
      with res j show "resolved tbl other ref t' j" by blast
    qed
    ultimately show ?thesis using tree by blast
  qed
qed

lemma root_covers:
  assumes wf: "wfTasks ref"
  shows "j < length ref \<Longrightarrow>
         \<exists>r\<le>j. parent (ref ! r) = None \<and> j \<in> descendants ref r"
proof (induction j rule: less_induct)
  case (less j)
  show ?case
  proof (cases "parent (ref ! j)")
    case None
    then show ?thesis by (auto intro: descendants.self)
  next
    case (Some p)
    from wfTasks_parentD [OF wf less.prems Some] have pj: "p < j" "j \<in> set (children (ref ! p))"
      by simp_all
    with less.prems have "p < length ref" by simp
    from less.IH [OF pj(1) this] obtain r where
      r: "r \<le> p" "parent (ref ! r) = None" "p \<in> descendants ref r" by blast
    from r(3) pj(2) have "j \<in> descendants ref r" by (rule descendants.child)
    moreover from r(1) pj(1) have "r \<le> j" by simp
    ultimately show ?thesis using r(2) by blast
  qed
qed

lemma metrics_all:
  assumes wf: "wfTasks ref" and fuel: "length ref \<le> fuel"
  shows "\<exists>t'. metricsLoop fuel tbl other ref [0..<length ref] = Some t' \<and>
           agree treeOf ref t' \<and> (\<forall>j<length ref. resolved tbl other ref t' j)"
proof -
  from metricsLoop_pass [OF wf fuel agree_refl, of "[0..<length ref]" tbl other] obtain t' where
    run: "metricsLoop fuel tbl other ref [0..<length ref] = Some t'"
    and tree: "agree treeOf ref t'"
    and res: "\<forall>j<length ref.
              (\<exists>r\<in>set [0..<length ref]. parent (ref ! r) = None \<and> j \<in> descendants ref r) \<or>
              resolved tbl other ref ref j \<longrightarrow> resolved tbl other ref t' j"
    by auto
  have "resolved tbl other ref t' j" if j: "j < length ref" for j
  proof -
    from root_covers [OF wf j] obtain r where
      "r \<le> j" "parent (ref ! r) = None" "j \<in> descendants ref r" by blast
    with j have "\<exists>r\<in>set [0..<length ref]. parent (ref ! r) = None \<and> j \<in> descendants ref r"
      by auto
    with res j show ?thesis by blast
  qed
  with run tree show ?thesis by blast
qed

section \<open>More fuel changes nothing, and enough fuel is the number of events\<close>

lemma selfTime_fuel_mono:
  "computeRecursiveSelfTime f t i = Some r \<Longrightarrow> f \<le> f' \<Longrightarrow>
     computeRecursiveSelfTime f' t i = Some r"
  "selfTimeChildren f t cs = Some rs \<Longrightarrow> f \<le> f' \<Longrightarrow>
     selfTimeChildren f' t cs = Some rs"
proof (induction f t i and f t cs arbitrary: r f' and rs f'
    rule: computeRecursiveSelfTime_selfTimeChildren.induct)
  case (1 tasks task)
  then show ?case by simp
next
  case (2 fuel tasks task)
  from "2.prems"(2) obtain g where f': "f' = Suc g" and g: "fuel \<le> g" by (cases f') auto
  from "2.prems"(1) obtain t1 ds where
    c: "selfTimeChildren fuel tasks (children (tasks ! task)) = Some (t1, ds)"
    by (auto split: option.splits)
  from "2.IH" [OF c g] "2.prems"(1) c show ?case unfolding f' by simp
next
  case (3 fuel tasks)
  then show ?case by simp
next
  case (4 fuel tasks child rest)
  from "4.prems"(1) obtain t1 d where
    c: "computeRecursiveSelfTime fuel tasks child = Some (t1, d)"
    by (auto split: option.splits)
  with "4.prems"(1) obtain t2 ds where
    r: "selfTimeChildren fuel t1 rest = Some (t2, ds)"
    by (auto split: option.splits)
  from "4.IH"(1) [OF c "4.prems"(2)] "4.IH"(2) [OF c refl r "4.prems"(2)] "4.prems"(1) c r
  show ?case by simp
qed

lemma attributableURL_fuel_mono:
  "computeRecursiveAttributableURL f t i pu = Some r \<Longrightarrow> f \<le> f' \<Longrightarrow>
     computeRecursiveAttributableURL f' t i pu = Some r"
  "attributableURLChildren f t i cs = Some r \<Longrightarrow> f \<le> f' \<Longrightarrow>
     attributableURLChildren f' t i cs = Some r"
proof (induction f t i pu and f t i cs arbitrary: r f' and r f'
    rule: computeRecursiveAttributableURL_attributableURLChildren.induct)
  case (1 tasks task parentURL)
  then show ?case by simp
next
  case (2 fuel tasks task parentURL)
  from "2.prems"(2) obtain g where f': "f' = Suc g" and g: "fuel \<le> g" by (cases f') auto
  from "2.IH" [OF refl _ g] "2.prems"(1) show ?case unfolding f' by (simp add: Let_def)
next
  case (3 fuel tasks task)
  then show ?case by simp
next
  case (4 fuel tasks task child rest)
  from "4.prems"(1) obtain t1 where
    c: "computeRecursiveAttributableURL fuel tasks child (attributableURL (tasks ! task)) = Some t1"
    by (auto split: option.splits)
  with "4.prems"(1) have r: "attributableURLChildren fuel t1 task rest = Some r" by simp
  from "4.IH"(1) [OF c "4.prems"(2)] "4.IH"(2) [OF c r "4.prems"(2)]
  show ?case by simp
qed

lemma taskGroup_fuel_mono:
  "computeRecursiveTaskGroup f tbl other t i pg = Some r \<Longrightarrow> f \<le> f' \<Longrightarrow>
     computeRecursiveTaskGroup f' tbl other t i pg = Some r"
  "taskGroupChildren f tbl other t i cs = Some r \<Longrightarrow> f \<le> f' \<Longrightarrow>
     taskGroupChildren f' tbl other t i cs = Some r"
proof (induction f tbl other t i pg and f tbl other t i cs arbitrary: r f' and r f'
    rule: computeRecursiveTaskGroup_taskGroupChildren.induct)
  case (1 tbl other tasks task parentGroup)
  then show ?case by simp
next
  case (2 fuel tbl other tasks task parentGroup)
  from "2.prems"(2) obtain g where f': "f' = Suc g" and g: "fuel \<le> g" by (cases f') auto
  from "2.IH" [OF refl refl _ g] "2.prems"(1) show ?case unfolding f' by (simp add: Let_def)
next
  case (3 fuel tbl other tasks task)
  then show ?case by simp
next
  case (4 fuel tbl other tasks task child rest)
  from "4.prems"(1) obtain t1 where
    c: "computeRecursiveTaskGroup fuel tbl other tasks child (Some (group (tasks ! task))) = Some t1"
    by (auto split: option.splits)
  with "4.prems"(1) have r: "taskGroupChildren fuel tbl other t1 task rest = Some r" by simp
  from "4.IH"(1) [OF c "4.prems"(2)] "4.IH"(2) [OF c r "4.prems"(2)]
  show ?case by simp
qed

lemma metricsLoop_fuel_mono:
  "metricsLoop f tbl other t rs = Some r \<Longrightarrow> f \<le> f' \<Longrightarrow>
     metricsLoop f' tbl other t rs = Some r"
proof (induction rs arbitrary: t)
  case Nil
  then show ?case by simp
next
  case (Cons a rs)
  show ?case
  proof (cases "parent (t ! a)")
    case (Some p)
    with Cons show ?thesis by simp
  next
    case None
    from Cons.prems(1) None obtain t1 d where
      r1: "computeRecursiveSelfTime f t a = Some (t1, d)" by (auto split: option.splits)
    with Cons.prems(1) None obtain t2 where
      r2: "computeRecursiveAttributableURL f t1 a None = Some t2" by (auto split: option.splits)
    with Cons.prems(1) None r1 obtain t3 where
      r3: "computeRecursiveTaskGroup f tbl other t2 a None = Some t3"
      by (auto split: option.splits)
    with Cons.prems(1) None r1 r2 have r4: "metricsLoop f tbl other t3 rs = Some r" by simp
    from selfTime_fuel_mono(1) [OF r1 Cons.prems(2)]
      attributableURL_fuel_mono(1) [OF r2 Cons.prems(2)]
      taskGroup_fuel_mono(1) [OF r3 Cons.prems(2)]
      Cons.IH [OF r4 Cons.prems(2)] None
    show ?thesis by simp
  qed
qed

lemma metrics_result:
  assumes wf: "wfTasks ref"
    and run: "metricsLoop fuel tbl other ref [0..<length ref] = Some t'"
  shows "agree treeOf ref t' \<and> (\<forall>j<length ref. resolved tbl other ref t' j)"
proof -
  let ?f = "max fuel (length ref)"
  from metrics_all [OF wf, of ?f tbl other] obtain t'' where
    r: "metricsLoop ?f tbl other ref [0..<length ref] = Some t''"
    and p: "agree treeOf ref t''" "\<forall>j<length ref. resolved tbl other ref t'' j"
    by auto
  from metricsLoop_fuel_mono [OF run, of ?f] r have "t'' = t'" by simp
  with p show ?thesis by simp
qed

lemma taskStep_length:
  "taskStep other started (tasks, cur) evt = Some (Inr (tasks', cur')) \<Longrightarrow>
   length tasks' \<le> Suc (length tasks)"
  by (auto simp: taskStep_def split: if_splits option.splits)

lemma taskLoop_length:
  "taskLoop other started (tasks, cur) evts = Some (Inr (tasks', cur')) \<Longrightarrow>
   length tasks' \<le> length tasks + length evts"
proof (induction evts arbitrary: tasks cur)
  case Nil
  then show ?case by simp
next
  case (Cons evt evts)
  from Cons.prems obtain t1 c1 where
    s: "taskStep other started (tasks, cur) evt = Some (Inr (t1, c1))"
    and l: "taskLoop other started (t1, c1) evts = Some (Inr (tasks', cur'))"
    by (auto split: option.splits sum.splits)
  from taskStep_length [OF s] Cons.IH [OF l] show ?case by simp
qed

lemma createTasksFromEvents_length:
  "createTasksFromEvents other evs = Some (Inr tasks) \<Longrightarrow> length tasks \<le> length evs"
  using taskLoop_length [of other _ "[]" None evs tasks]
  by (auto simp: createTasksFromEvents_def split: sum.splits option.splits prod.splits)

lemma getMainThreadTasks_total:
  assumes "length evs \<le> fuel"
  shows "\<exists>r. getMainThreadTasks fuel tbl other evs = Some r"
proof -
  from createTasksFromEvents_total [of other evs] obtain r where
    r: "createTasksFromEvents other evs = Some r" "\<forall>tasks. r = Inr tasks \<longrightarrow> wfTasks tasks"
    by blast
  show ?thesis
  proof (cases r)
    case (Inl e)
    with r show ?thesis by (simp add: getMainThreadTasks_def)
  next
    case (Inr tasks)
    with r have wf: "wfTasks tasks" by simp
    from createTasksFromEvents_length [of other evs tasks] r Inr assms
    have "length tasks \<le> fuel" by simp
    from metrics_all [OF wf this, of tbl other] r Inr show ?thesis
      by (auto simp: getMainThreadTasks_def)
  qed
qed

section \<open>The returned list of tasks\<close>

lemma taskURL_candidate: "taskURL evt = ownCandidateURL evt"
  by (simp add: taskURL_def ownCandidateURL_def js_or_def Let_def
      split: option.splits list.splits)

lemma isFinite_js_sub: "isFinite (js_sub x y) \<longleftrightarrow> isFinite x \<and> isFinite y"
  by (cases x; cases y) (simp_all add: js_sub_def)

lemma isFinite_div_1000: "isFinite (js_div x (Fin 1000)) \<longleftrightarrow> isFinite x"
  by (cases x) simp_all

lemma foldl_js_add_finite:
  "isFinite (foldl js_add x (map g cs)) \<Longrightarrow> isFinite x \<and> (\<forall>c\<in>set cs. isFinite (g c))"
proof (induction cs arbitrary: x)
  case Nil
  then show ?case by simp
next
  case (Cons c cs)
  then have "isFinite (js_add x (g c))" "\<forall>c\<in>set cs. isFinite (g c)" by simp_all
  moreover from this(1) have "isFinite x \<and> isFinite (g c)" by (cases x; cases "g c") simp_all
  ultimately show ?case by simp
qed

lemma rescaleLoop_Inl:
  "\<exists>n\<in>set tasks. \<not> isFinite (selfTime n) \<Longrightarrow> rescaleLoop f tasks = Inl InvalidTaskTimingData"
proof (induction tasks)
  case Nil
  then show ?case by simp
next
  case (Cons n tasks)
  show ?case
  proof (cases "isFinite (selfTime n)")
    case False
    then show ?thesis by (simp add: Let_def rescaleTask_def isFinite_div_1000)
  next
    case True
    with Cons.prems have "\<exists>n\<in>set tasks. \<not> isFinite (selfTime n)" by auto
    from Cons.IH [OF this] show ?thesis by (simp add: Let_def)
  qed
qed

lemma rescaleLoop_finite:
  assumes "rescaleLoop f tasks = Inr tasks'"
  shows "\<forall>n\<in>set tasks. isFinite (selfTime n)"
proof (rule ccontr)
  assume "\<not> (\<forall>n\<in>set tasks. isFinite (selfTime n))"
  then have "rescaleLoop f tasks = Inl InvalidTaskTimingData" by (intro rescaleLoop_Inl) blast
  with assms show False by simp
qed

lemma getMainThreadTasks_stages:
  assumes "getMainThreadTasks fuel tbl other evs = Some (Inr tasks)"
  shows "\<exists>ref t1. createTasksFromEvents other evs = Some (Inr ref) \<and> wfTasks ref \<and>
           metricsLoop fuel tbl other ref [0..<length ref] = Some t1 \<and>
           agree treeOf ref t1 \<and> (\<forall>j<length ref. resolved tbl other ref t1 j) \<and>
           rescaleLoop (firstTs t1) t1 = Inr tasks \<and>
           tasks = map (rescaleTask (firstTs t1)) t1"
proof -
  from assms obtain ref where c: "createTasksFromEvents other evs = Some (Inr ref)"
    by (auto simp: getMainThreadTasks_def split: option.splits sum.splits)
  with assms obtain t1 where m: "metricsLoop fuel tbl other ref [0..<length ref] = Some t1"
    by (auto simp: getMainThreadTasks_def split: option.splits)
  with assms c have r: "rescaleLoop (firstTs t1) t1 = Inr tasks"
    by (simp add: getMainThreadTasks_def)
  from createTasksFromEvents_total [of other evs] c have wf: "wfTasks ref" by auto
  from metrics_result [OF wf m] rescaleLoop_Inr [OF r] c wf m r show ?thesis by blast
qed

lemma rescaled_fields:
  assumes "tasks = map (rescaleTask f) t1" and "j < length t1"
  shows "event (tasks ! j) = event (t1 ! j)" and "parent (tasks ! j) = parent (t1 ! j)"
    and "children (tasks ! j) = children (t1 ! j)" and "group (tasks ! j) = group (t1 ! j)"
    and "attributableURL (tasks ! j) = attributableURL (t1 ! j)"
    and "startTime (tasks ! j) = js_div (js_sub (startTime (t1 ! j)) f) (Fin 1000)"
    and "endTime (tasks ! j) = js_div (js_sub (endTime (t1 ! j)) f) (Fin 1000)"
    and "duration (tasks ! j) = js_div (duration (t1 ! j)) (Fin 1000)"
    and "selfTime (tasks ! j) = js_div (selfTime (t1 ! j)) (Fin 1000)"
  using assms by (simp_all add: rescaleTask_def)

lemma timed_finite:
  assumes "timed ref t1 j" and "isFinite (selfTime (t1 ! j))"
  shows "isFinite (spanOf ref j)" and "isFinite (childSpans ref j)"
    and "isFinite (startTime (ref ! j))" and "isFinite (endTime (ref ! j))"
    and "isFinite (duration (t1 ! j))"
  using assms by (simp_all add: timed_def isFinite_js_sub spanOf_def)

lemma exOpen_created: "createTasksFromEvents () exOpen = Some (Inr exOpenRaw)"
  by (simp add: exOpen_def exOpenRaw_def ex_simps)

lemma exOpen_metrics:
  "metricsLoop (Suc 0) (\<lambda>n. None) () exOpenRaw [0..<length exOpenRaw] = Some exOpenRaw"
  by (simp add: exOpenRaw_def js_sub_def js_or_def taskURL_def falsy_def traceEvent_def)

lemma exNested_created: "createTasksFromEvents ''other'' exNested = Some (Inr exNestedRaw)"
  by (simp add: exNested_def exNestedRaw_def urlEvent_def ex_simps)

lemma exNested_metrics:
  "metricsLoop (Suc (Suc 0)) exTable ''other'' exNestedRaw [0..<length exNestedRaw] =
     Some exNestedMetrics"
  by (simp add: exNestedRaw_def exNestedMetrics_def js_sub_def js_or_def taskURL_def falsy_def
      traceEvent_def urlEvent_def exTable_def upt_rec fl_eval)

lemma exNested_rescaled:
  "rescaleLoop (firstTs exNestedMetrics) exNestedMetrics = Inr exNestedResult"
  by (simp add: exNestedMetrics_def exNestedResult_def js_sub_def firstTs_def rescaleTask_def
      fl_eval)

lemma exNested_result:
  "getMainThreadTasks (Suc (Suc 0)) exTable ''other'' exNested = Some (Inr exNestedResult)"
  by (simp add: getMainThreadTasks_def exNested_created exNested_metrics exNested_rescaled)

text \<open>
  Claim C9.  In the list that \<^verbatim>\<open>getMainThreadTasks\<close> returns, the \<open>attributableURL\<close>
  of every node is the resolved URL of its parent when the node has a parent and that URL
  is present (a string that is not empty), and the candidate URL of its own event
  otherwise: the URL of the argument data, or else the URL of the first frame of the call
  stack, or else nothing.  The \<open>group\<close> of every node is the group that the table gives for
  the name of its event, or else the resolved group of its parent, or else, for a root,
  the group \<open>Other\<close>.  The value a child inherits is the value its parent ends with.
\<close>

theorem attribution_is_inherited:
  assumes "getMainThreadTasks fuel tbl other evs = Some (Inr tasks)" and "i < length tasks"
  shows "attributableURL (tasks ! i) =
           js_or (case parent (tasks ! i) of None \<Rightarrow> None
                  | Some p \<Rightarrow> attributableURL (tasks ! p))
                 (ownCandidateURL (event (tasks ! i))) \<and>
         group (tasks ! i) =
           (case tbl (name (event (tasks ! i))) of
              Some g \<Rightarrow> g
            | None \<Rightarrow> (case parent (tasks ! i) of
                         None \<Rightarrow> other
                       | Some p \<Rightarrow> group (tasks ! p)))"
proof -
  from getMainThreadTasks_stages [OF assms(1)] obtain ref t1 where
    wf: "wfTasks ref" and tree: "agree treeOf ref t1"
    and res: "\<forall>j<length ref. resolved tbl other ref t1 j"
    and tasks: "tasks = map (rescaleTask (firstTs t1)) t1"
    by blast
  have l: "length t1 = length ref" using agree_length [OF tree] .
  with tasks assms(2) have i: "i < length ref" "i < length t1" by simp_all
  from res i have u: "urlResolved t1 i" and g: "groupResolved tbl other t1 i"
    by (simp_all add: resolved_def)
  note fi = rescaled_fields(1,2,4,5) [OF tasks i(2)]
  show ?thesis
  proof (cases "parent (t1 ! i)")
    case None
    with u g fi show ?thesis
      by (simp add: urlResolved_def groupResolved_def taskURL_candidate cong: option.case_cong)
  next
    case (Some p)
    with sameTree_fields(4) [OF tree i(1)] have "parent (ref ! i) = Some p" by simp
    from wfTasks_parentD [OF wf i(1) this] i l have "p < length t1" by simp
    note fp = rescaled_fields(4,5) [OF tasks this]
    from u g fi fp Some show ?thesis
      by (simp add: urlResolved_def groupResolved_def taskURL_candidate cong: option.case_cong)
  qed
qed

theorem attribution_is_inherited_witness:
  "getMainThreadTasks (Suc (Suc 0)) exTable ''other'' exNested = Some (Inr exNestedResult) \<and>
   1 < length exNestedResult \<and>
   attributableURL (exNestedResult ! 1) = Some ''x.js'' \<and>
   ownCandidateURL (event (exNestedResult ! 1)) = None \<and>
   parent (exNestedResult ! 1) = Some 0 \<and>
   attributableURL (exNestedResult ! 0) = Some ''x.js'' \<and>
   group (exNestedResult ! 1) = ''scripting''"
proof -
  have l: "1 < length exNestedResult" by (simp add: exNestedResult_def)
  from attribution_is_inherited [OF exNested_result l] exNested_result l show ?thesis
    by (simp add: exNestedResult_def ownCandidateURL_def traceEvent_def)
qed

section \<open>The tasks in the order of the timestamps\<close>

lemma chain_None [simp]: "chain tasks None = {}"
proof -
  have "j \<in> chain tasks None \<Longrightarrow> False" for j
    by (induction rule: chain.induct) simp_all
  then show ?thesis by blast
qed

lemma chain_Some: "chain tasks (Some c) = insert c (chain tasks (parent (tasks ! c)))"
proof (intro equalityI subsetI)
  fix x assume "x \<in> chain tasks (Some c)"
  then show "x \<in> insert c (chain tasks (parent (tasks ! c)))"
  proof (induction rule: chain.induct)
    case (here c')
    then show ?case by simp
  next
    case (up j p)
    show ?case
    proof (cases "j = c")
      case True
      with up.hyps(2) have "p \<in> chain tasks (parent (tasks ! c))"
        by (auto intro: chain.here)
      then show ?thesis by simp
    next
      case False
      with up.IH have "j \<in> chain tasks (parent (tasks ! c))" by simp
      from chain.up [OF this up.hyps(2)] show ?thesis by simp
    qed
  qed
next
  fix x assume x: "x \<in> insert c (chain tasks (parent (tasks ! c)))"
  show "x \<in> chain tasks (Some c)"
  proof (cases "x = c")
    case True
    then show ?thesis by (auto intro: chain.here)
  next
    case False
    with x have "x \<in> chain tasks (parent (tasks ! c))" by simp
    then show ?thesis
    proof (induction rule: chain.induct)
      case (here c')
      have "c \<in> chain tasks (Some c)" by (auto intro: chain.here)
      from chain.up [OF this here] show ?case .
    next
      case (up j p)
      from chain.up [OF up.IH up.hyps(2)] show ?case .
    qed
  qed
qed

lemma chain_le:
  assumes wf: "wfTasks tasks" and c: "c < length tasks" and j: "j \<in> chain tasks (Some c)"
  shows "j \<le> c"
  using j
proof (induction rule: chain.induct)
  case (here c')
  then show ?case by simp
next
  case (up j p)
  from up.IH c have "j < length tasks" by simp
  from wfTasks_parentD [OF wf this up.hyps(2)] up.IH show ?case by simp
qed

lemma chain_parent_lt:
  assumes wf: "wfTasks tasks" and c: "c < length tasks"
    and j: "j \<in> chain tasks (parent (tasks ! c))"
  shows "j < c"
proof (cases "parent (tasks ! c)")
  case None
  with j show ?thesis by simp
next
  case (Some p)
  from wfTasks_parentD [OF wf c Some] c have p: "p < c" "p < length tasks" by simp_all
  from chain_le [OF wf p(2)] j Some p(1) show ?thesis by fastforce
qed

lemma chain_cong_Some:
  assumes wf: "wfTasks t" and par: "\<And>j. j < length t \<Longrightarrow> parent (t' ! j) = parent (t ! j)"
  shows "c < length t \<Longrightarrow> chain t' (Some c) = chain t (Some c)"
proof (induction c rule: less_induct)
  case (less c)
  show ?case
  proof (cases "parent (t ! c)")
    case None
    with par [OF less.prems] show ?thesis by (simp add: chain_Some [of _ c])
  next
    case (Some p)
    from wfTasks_parentD [OF wf less.prems Some] less.prems have "p < c" "p < length t"
      by simp_all
    from less.IH [OF this] par [OF less.prems] Some show ?thesis
      by (simp add: chain_Some [of _ c])
  qed
qed

lemma chain_cong:
  assumes "wfTasks t" and "\<And>j. j < length t \<Longrightarrow> parent (t' ! j) = parent (t ! j)"
    and "\<forall>c. cur = Some c \<longrightarrow> c < length t"
  shows "chain t' cur = chain t cur"
proof (cases cur)
  case None
  then show ?thesis by simp
next
  case (Some c)
  with assms(3) chain_cong_Some [OF assms(1,2), of c] show ?thesis by simp
qed

lemma chain_range:
  assumes "scanInv (tasks, cur)" and "j \<in> chain tasks cur"
  shows "j < length tasks"
proof (cases cur)
  case None
  with assms(2) show ?thesis by simp
next
  case (Some c)
  from assms(1) Some have wf: "wfTasks tasks" and c: "c < length tasks"
    by (simp_all add: scanInv_def)
  from chain_le [OF wf c] assms(2) Some c show ?thesis by fastforce
qed

lemma js_le_Fin_mono: "js_le x (Fin T) \<Longrightarrow> T \<le> t \<Longrightarrow> js_le x (Fin t)"
  by (cases x) simp_all

lemma startsOK_D:
  "startsOK T tasks \<Longrightarrow> j < length tasks \<Longrightarrow>
   startTime (tasks ! j) = Fin (ts (event (tasks ! j))) \<and> ts (event (tasks ! j)) \<le> T"
  unfolding startsOK_def by blast

lemma completeOK_D:
  "completeOK tasks \<Longrightarrow> j < length tasks \<Longrightarrow> ph (event (tasks ! j)) = ''X'' \<Longrightarrow>
   isFinite (endTime (tasks ! j))"
  unfolding completeOK_def by blast

lemma closedOK_D:
  "closedOK T tasks cur \<Longrightarrow> j < length tasks \<Longrightarrow> j \<notin> chain tasks cur \<Longrightarrow>
   isFinite (endTime (tasks ! j)) \<and> js_le (endTime (tasks ! j)) (Fin T)"
  unfolding closedOK_def by blast

lemma openOK_D:
  "openOK tasks cur \<Longrightarrow> j \<in> chain tasks cur \<Longrightarrow> ph (event (tasks ! j)) = ''B'' \<Longrightarrow>
   endTime (tasks ! j) = NaN"
  unfolding openOK_def by blast

lemma nestedOK_D:
  "nestedOK tasks \<Longrightarrow> j < length tasks \<Longrightarrow> parent (tasks ! j) = Some p \<Longrightarrow> nested tasks j p"
  unfolding nestedOK_def by blast

lemma nested_cong:
  assumes "startTime (t' ! j) = startTime (t ! j)" and "startTime (t' ! p) = startTime (t ! p)"
    and "endTime (t' ! j) = endTime (t ! j)" and "endTime (t' ! p) = endTime (t ! p)"
    and "event (t' ! p) = event (t ! p)"
  shows "nested t' j p = nested t j p"
  unfolding nested_def using assms by simp

lemma timeInv_D:
  assumes "timeInv T (tasks, cur)"
  shows "scanInv (tasks, cur)" and "wfTasks tasks" and "\<forall>c. cur = Some c \<longrightarrow> c < length tasks"
    and "startsOK T tasks" and "completeOK tasks" and "closedOK T tasks cur"
    and "openOK tasks cur" and "nestedOK tasks"
  using assms by (simp_all add: timeInv_def scanInv_def)

lemma timeInv_I:
  assumes "wfTasks tasks" and "\<forall>c. cur = Some c \<longrightarrow> c < length tasks"
    and "startsOK T tasks" and "completeOK tasks" and "closedOK T tasks cur"
    and "openOK tasks cur" and "nestedOK tasks"
  shows "timeInv T (tasks, cur)"
  using assms by (simp add: timeInv_def scanInv_def)

lemma timeInv_empty: "timeInv T ([], None)"
  by (simp add: timeInv_def scanInv_def wfTasks_def startsOK_def completeOK_def closedOK_def
      openOK_def nestedOK_def)

lemma timeInv_mono:
  assumes inv: "timeInv T st" and le: "T \<le> t"
  shows "timeInv t st"
proof -
  obtain tasks cur where st: "st = (tasks, cur)" by (cases st)
  note d = timeInv_D [OF inv [unfolded st]]
  have s: "startsOK t tasks"
    unfolding startsOK_def
  proof (intro allI impI)
    fix j assume "j < length tasks"
    from startsOK_D [OF d(4) this] le
    show "startTime (tasks ! j) = Fin (ts (event (tasks ! j))) \<and> ts (event (tasks ! j)) \<le> t"
      by simp
  qed
  have c: "closedOK t tasks cur"
    unfolding closedOK_def
  proof (intro allI impI)
    fix j assume "j < length tasks" "j \<notin> chain tasks cur"
    from closedOK_D [OF d(6) this] js_le_Fin_mono [OF _ le]
    show "isFinite (endTime (tasks ! j)) \<and> js_le (endTime (tasks ! j)) (Fin t)"
      by blast
  qed
  from timeInv_I [OF d(2,3) s d(5) c d(7,8)] st show ?thesis by simp
qed

lemma timeInv_pop:
  assumes inv: "timeInv t (tasks, Some c)"
    and ended: "isFinite (endTime (tasks ! c)) \<and> js_le (endTime (tasks ! c)) (Fin t)"
  shows "timeInv t (tasks, parent (tasks ! c))"
proof -
  note d = timeInv_D [OF inv]
  from d(3) have c: "c < length tasks" by simp
  have r: "\<forall>p. parent (tasks ! c) = Some p \<longrightarrow> p < length tasks"
    using wfTasks_parentD [OF d(2) c] c by fastforce
  have cl: "closedOK t tasks (parent (tasks ! c))"
    unfolding closedOK_def
  proof (intro allI impI)
    fix j assume j: "j < length tasks" "j \<notin> chain tasks (parent (tasks ! c))"
    show "isFinite (endTime (tasks ! j)) \<and> js_le (endTime (tasks ! j)) (Fin t)"
    proof (cases "j = c")
      case True
      with ended show ?thesis by simp
    next
      case False
      with j(2) have "j \<notin> chain tasks (Some c)" by (simp add: chain_Some [of _ c])
      from closedOK_D [OF d(6) j(1) this] show ?thesis .
    qed
  qed
  have op: "openOK tasks (parent (tasks ! c))"
    unfolding openOK_def
  proof (intro ballI impI)
    fix j assume j: "j \<in> chain tasks (parent (tasks ! c))" "ph (event (tasks ! j)) = ''B''"
    from j(1) have "j \<in> chain tasks (Some c)" by (simp add: chain_Some [of _ c])
    from openOK_D [OF d(7) this j(2)] show "endTime (tasks ! j) = NaN" .
  qed
  from timeInv_I [OF d(2) r d(4,5) cl op d(8)] show ?thesis .
qed

lemma ascend_timeInv_Some:
  "timeInv t (tasks, Some c) \<Longrightarrow>
   \<exists>r. ascend tasks t (Some c) = Some r \<and> timeInv t (tasks, r) \<and>
       (\<forall>i. r = Some i \<longrightarrow>
          \<not> (isFinite (endTime (tasks ! i)) \<and> js_le (endTime (tasks ! i)) (Fin t)))"
proof (induction c rule: less_induct)
  case (less c)
  note d = timeInv_D [OF less.prems]
  from d(3) have c: "c < length tasks" by simp
  show ?case
  proof (cases "isFinite (endTime (tasks ! c)) \<and> js_le (endTime (tasks ! c)) (Fin t)")
    case False
    then show ?thesis using less.prems by (subst ascend.simps) auto
  next
    case True
    note pop = timeInv_pop [OF less.prems True]
    show ?thesis
    proof (cases "parent (tasks ! c)")
      case None
      with True pop show ?thesis
        by (subst ascend.simps) (simp add: ascend.simps [of _ _ None])
    next
      case (Some p)
      from wfTasks_parentD [OF d(2) c Some] have "p < c" by simp
      from less.IH [OF this] pop Some True show ?thesis
        by (subst ascend.simps) simp
    qed
  qed
qed

lemma ascend_timeInv:
  assumes "timeInv t (tasks, cur)"
  shows "\<exists>r. ascend tasks t cur = Some r \<and> timeInv t (tasks, r) \<and>
       (\<forall>i. r = Some i \<longrightarrow>
          \<not> (isFinite (endTime (tasks ! i)) \<and> js_le (endTime (tasks ! i)) (Fin t)))"
proof (cases cur)
  case None
  with assms show ?thesis by (simp add: ascend.simps)
next
  case (Some c)
  with assms ascend_timeInv_Some [of t tasks c] show ?thesis by simp
qed

lemma timeInv_create:
  assumes inv: "timeInv t (tasks, cur)"
    and exit: "\<forall>i. cur = Some i \<longrightarrow>
          \<not> (isFinite (endTime (tasks ! i)) \<and> js_le (endTime (tasks ! i)) (Fin t))"
    and ph: "ph evt = ''X'' \<or> ph evt = ''B''" and ts: "ts evt = t"
  shows "timeInv t (createNewTaskNode other evt cur tasks, Some (length tasks))"
proof -
  let ?t = "createNewTaskNode other evt cur tasks"
  note d = timeInv_D [OF inv]
  have wf: "wfTasks ?t" by (rule wfTasks_createNewTaskNode [OF d(2,3)])
  have old: "event (?t ! j) = event (tasks ! j) \<and> startTime (?t ! j) = startTime (tasks ! j) \<and>
             endTime (?t ! j) = endTime (tasks ! j) \<and> parent (?t ! j) = parent (tasks ! j)"
    if "j < length tasks" for j
    using that by (simp add: createNewTaskNode_old)
  have new: "event (?t ! length tasks) = evt" "startTime (?t ! length tasks) = Fin t"
    "parent (?t ! length tasks) = cur"
    "ph evt = ''X'' \<longrightarrow> isFinite (endTime (?t ! length tasks))"
    "ph evt = ''B'' \<longrightarrow> endTime (?t ! length tasks) = NaN"
    using ts by (simp_all add: createNewTaskNode_new)
  have "chain ?t cur = chain tasks cur"
    by (rule chain_cong [OF d(2) _ d(3)]) (simp add: old)
  with new(3) have ch: "chain ?t (Some (length tasks)) = insert (length tasks) (chain tasks cur)"
    by (simp add: chain_Some [of _ "length tasks"])
  have s: "startsOK t ?t"
    unfolding startsOK_def
  proof (intro allI impI)
    fix j assume "j < length ?t"
    then have "j < length tasks \<or> j = length tasks" by auto
    then show "startTime (?t ! j) = Fin (ts (event (?t ! j))) \<and> ts (event (?t ! j)) \<le> t"
    proof
      assume j: "j < length tasks"
      from startsOK_D [OF d(4) j] old [OF j] show ?thesis by simp
    next
      assume "j = length tasks"
      with new ts show ?thesis by simp
    qed
  qed
  have co: "completeOK ?t"
    unfolding completeOK_def
  proof (intro allI impI)
    fix j assume "j < length ?t" and x: "ph (event (?t ! j)) = ''X''"
    then have "j < length tasks \<or> j = length tasks" by auto
    then show "isFinite (endTime (?t ! j))"
    proof
      assume j: "j < length tasks"
      from completeOK_D [OF d(5) j] old [OF j] x show ?thesis by simp
    next
      assume "j = length tasks"
      with new x show ?thesis by simp
    qed
  qed
  have cl: "closedOK t ?t (Some (length tasks))"
    unfolding closedOK_def
  proof (intro allI impI)
    fix j assume "j < length ?t" and n: "j \<notin> chain ?t (Some (length tasks))"
    with ch have j: "j < length tasks" and "j \<notin> chain tasks cur" by auto
    from closedOK_D [OF d(6) this] old [OF j]
    show "isFinite (endTime (?t ! j)) \<and> js_le (endTime (?t ! j)) (Fin t)" by simp
  qed
  have op: "openOK ?t (Some (length tasks))"
    unfolding openOK_def
  proof (intro ballI impI)
    fix j assume "j \<in> chain ?t (Some (length tasks))" and b: "ph (event (?t ! j)) = ''B''"
    with ch have "j = length tasks \<or> j \<in> chain tasks cur" by simp
    then show "endTime (?t ! j) = NaN"
    proof
      assume "j = length tasks"
      with new b show ?thesis by simp
    next
      assume c: "j \<in> chain tasks cur"
      from chain_range [OF d(1) c] have j: "j < length tasks" .
      from openOK_D [OF d(7) c] old [OF j] b show ?thesis by simp
    qed
  qed
  have ne: "nestedOK ?t"
    unfolding nestedOK_def
  proof (intro allI impI)
    fix j p assume "j < length ?t" and par: "parent (?t ! j) = Some p"
    then have "j < length tasks \<or> j = length tasks" by auto
    then show "nested ?t j p"
    proof
      assume j: "j < length tasks"
      with par old [OF j] have pj: "parent (tasks ! j) = Some p" by simp
      from wfTasks_parentD [OF d(2) j pj] j have p: "p < length tasks" by simp
      have "nested ?t j p = nested tasks j p"
        by (rule nested_cong) (simp_all add: old [OF j] old [OF p])
      with nestedOK_D [OF d(8) j pj] show ?thesis by simp
    next
      assume j: "j = length tasks"
      with par new have cur: "cur = Some p" by simp
      with d(3) have p: "p < length tasks" by simp
      from startsOK_D [OF d(4) p] old [OF p] new(2) j
      have a: "js_le (startTime (?t ! p)) (startTime (?t ! j))" by simp
      have b: "js_lt (startTime (?t ! j)) (endTime (?t ! p))" if "ph (event (?t ! p)) = ''X''"
      proof -
        from that old [OF p] have x: "ph (event (tasks ! p)) = ''X''" by simp
        from completeOK_D [OF d(5) p x] exit cur
        have "isFinite (endTime (tasks ! p))" "\<not> js_le (endTime (tasks ! p)) (Fin t)"
          by simp_all
        then have "js_lt (Fin t) (endTime (tasks ! p))"
          by (cases "endTime (tasks ! p)") simp_all
        with old [OF p] new(2) j show ?thesis by simp
      qed
      have c: "\<not> (ph (event (?t ! p)) = ''B'' \<and> isFinite (endTime (?t ! p)))"
      proof
        assume h: "ph (event (?t ! p)) = ''B'' \<and> isFinite (endTime (?t ! p))"
        from cur have "p \<in> chain tasks cur" by (auto intro: chain.here)
        from openOK_D [OF d(7) this] h old [OF p] show False by simp
      qed
      from a b c show ?thesis unfolding nested_def by blast
    qed
  qed
  have r: "\<forall>c. Some (length tasks) = Some c \<longrightarrow> c < length ?t" by simp
  from timeInv_I [OF wf r s co cl op ne] show ?thesis .
qed

lemma timeInv_close:
  assumes inv: "timeInv t (tasks, Some c)" and opened: "ph (event (tasks ! c)) = ''B''"
  shows "timeInv t (tasks[c := (tasks ! c)\<lparr>endTime := Fin t\<rparr>], parent (tasks ! c))"
proof -
  let ?t = "tasks[c := (tasks ! c)\<lparr>endTime := Fin t\<rparr>]"
  note d = timeInv_D [OF inv]
  from d(3) have c: "c < length tasks" by simp
  have wf: "wfTasks ?t" by (rule wfTasks_endTime_update [OF d(2)])
  have r0: "\<forall>p. parent (tasks ! c) = Some p \<longrightarrow> p < length tasks"
    using wfTasks_parentD [OF d(2) c] c by fastforce
  then have r: "\<forall>p. parent (tasks ! c) = Some p \<longrightarrow> p < length ?t" by simp
  have same: "event (?t ! j) = event (tasks ! j) \<and> startTime (?t ! j) = startTime (tasks ! j) \<and>
             parent (?t ! j) = parent (tasks ! j)"
    if "j < length tasks" for j
    using that c by (cases "j = c") simp_all
  have ends: "endTime (?t ! j) = (if j = c then Fin t else endTime (tasks ! j))"
    if "j < length tasks" for j
    using that by (simp add: nth_list_update)
  have ch: "chain ?t (parent (tasks ! c)) = chain tasks (parent (tasks ! c))"
    by (rule chain_cong [OF d(2) _ r0]) (simp add: same)
  have up: "chain tasks (parent (tasks ! c)) \<subseteq> chain tasks (Some c)"
    by (auto simp: chain_Some [of _ c])
  have s: "startsOK t ?t"
    unfolding startsOK_def
  proof (intro allI impI)
    fix j assume "j < length ?t"
    then have j: "j < length tasks" by simp
    from startsOK_D [OF d(4) j] same [OF j]
    show "startTime (?t ! j) = Fin (ts (event (?t ! j))) \<and> ts (event (?t ! j)) \<le> t" by simp
  qed
  have co: "completeOK ?t"
    unfolding completeOK_def
  proof (intro allI impI)
    fix j assume "j < length ?t" and x: "ph (event (?t ! j)) = ''X''"
    then have j: "j < length tasks" by simp
    from completeOK_D [OF d(5) j] same [OF j] ends [OF j] x
    show "isFinite (endTime (?t ! j))" by simp
  qed
  have cl: "closedOK t ?t (parent (tasks ! c))"
    unfolding closedOK_def
  proof (intro allI impI)
    fix j assume "j < length ?t" and n: "j \<notin> chain ?t (parent (tasks ! c))"
    then have j: "j < length tasks" by simp
    show "isFinite (endTime (?t ! j)) \<and> js_le (endTime (?t ! j)) (Fin t)"
    proof (cases "j = c")
      case True
      with ends [OF j] show ?thesis by simp
    next
      case False
      with n ch have "j \<notin> chain tasks (Some c)" by (simp add: chain_Some [of _ c])
      from closedOK_D [OF d(6) j this] ends [OF j] False show ?thesis by simp
    qed
  qed
  have op: "openOK ?t (parent (tasks ! c))"
    unfolding openOK_def
  proof (intro ballI impI)
    fix j assume "j \<in> chain ?t (parent (tasks ! c))" and b: "ph (event (?t ! j)) = ''B''"
    with ch have m: "j \<in> chain tasks (parent (tasks ! c))" by simp
    from chain_parent_lt [OF d(2) c m] c have j: "j < c" "j < length tasks" by simp_all
    from m up have "j \<in> chain tasks (Some c)" by blast
    from openOK_D [OF d(7) this] same [OF j(2)] ends [OF j(2)] j(1) b
    show "endTime (?t ! j) = NaN" by simp
  qed
  have ne: "nestedOK ?t"
    unfolding nestedOK_def
  proof (intro allI impI)
    fix j p assume "j < length ?t" and par: "parent (?t ! j) = Some p"
    then have j: "j < length tasks" by simp
    with par same [OF j] have pj: "parent (tasks ! j) = Some p" by simp
    from wfTasks_parentD [OF d(2) j pj] j have p: "p < j" "p < length tasks" by simp_all
    note n = nestedOK_D [OF d(8) j pj, unfolded nested_def]
    from n same [OF j] same [OF p(2)]
    have a: "js_le (startTime (?t ! p)) (startTime (?t ! j))" by simp
    have b: "js_lt (startTime (?t ! j)) (endTime (?t ! p))" if x: "ph (event (?t ! p)) = ''X''"
    proof -
      from x same [OF p(2)] have x': "ph (event (tasks ! p)) = ''X''" by simp
      with opened have "p \<noteq> c" by auto
      with n x' same [OF j] ends [OF p(2)] show ?thesis by simp
    qed
    have e: "isFinite (endTime (?t ! j)) \<and> js_le (endTime (?t ! j)) (endTime (?t ! p))"
      if h: "ph (event (?t ! p)) = ''B'' \<and> isFinite (endTime (?t ! p))"
    proof (cases "p = c")
      case True
      with p(1) have jc: "j \<noteq> c" "\<not> j \<le> c" by simp_all
      from chain_le [OF d(2) c] jc(2) have "j \<notin> chain tasks (Some c)" by blast
      from closedOK_D [OF d(6) j this] ends [OF j] ends [OF p(2)] jc(1) True
      show ?thesis by simp
    next
      case False
      with h same [OF p(2)] ends [OF p(2)]
      have h': "ph (event (tasks ! p)) = ''B''" "isFinite (endTime (tasks ! p))" by simp_all
      show ?thesis
      proof (cases "j = c")
        case True
        have "c \<in> chain tasks (Some c)" by (auto intro: chain.here)
        from chain.up [OF this] pj True have "p \<in> chain tasks (Some c)" by simp
        from openOK_D [OF d(7) this h'(1)] h'(2) show ?thesis by simp
      next
        case jc: False
        from n h' ends [OF j] ends [OF p(2)] jc False show ?thesis by simp
      qed
    qed
    from a b e show "nested ?t j p" unfolding nested_def by blast
  qed
  from timeInv_I [OF wf r s co cl op ne] show ?thesis .
qed

lemma taskStep_timeInv:
  assumes inv: "timeInv T st" and le: "T \<le> ts evt"
    and step: "taskStep other started st evt = Some (Inr st')"
  shows "timeInv (ts evt) st'"
proof -
  obtain tasks cur where st: "st = (tasks, cur)" by (cases st)
  from timeInv_mono [OF inv le] st have inv': "timeInv (ts evt) (tasks, cur)" by simp
  show ?thesis
  proof (cases "pid evt \<noteq> pid started \<or> tid evt \<noteq> tid started \<or>
                (ph evt \<noteq> ''X'' \<and> ph evt \<noteq> ''B'' \<and> ph evt \<noteq> ''E'')")
    case True
    with step st have "st' = (tasks, cur)" by (auto simp: taskStep_def split: if_splits)
    with inv' show ?thesis by simp
  next
    case False
    from ascend_timeInv [OF inv'] obtain r where
      r: "ascend tasks (ts evt) cur = Some r" "timeInv (ts evt) (tasks, r)"
        "\<forall>i. r = Some i \<longrightarrow>
           \<not> (isFinite (endTime (tasks ! i)) \<and> js_le (endTime (tasks ! i)) (Fin (ts evt)))"
      by blast
    show ?thesis
    proof (cases "ph evt = ''E''")
      case e: False
      with False have ph: "ph evt = ''X'' \<or> ph evt = ''B''" by blast
      with step st False r(1) e
      have "st' = (createNewTaskNode other evt r tasks, Some (length tasks))"
        by (cases r) (auto simp: taskStep_def)
      with timeInv_create [OF r(2,3) ph refl] show ?thesis by simp
    next
      case e: True
      with step st False r(1) obtain c where c: "r = Some c" "ph (event (tasks ! c)) = ''B''"
        "st' = (tasks[c := (tasks ! c)\<lparr>endTime := Fin (ts evt)\<rparr>], parent (tasks ! c))"
        by (cases r) (auto simp: taskStep_def split: if_splits)
      from timeInv_close [OF r(2) [unfolded c(1)] c(2)] c(3) show ?thesis by simp
    qed
  qed
qed

lemma taskLoop_timeInv:
  "timeInv T st \<Longrightarrow> sorted (map ts evs) \<Longrightarrow> \<forall>e\<in>set evs. T \<le> ts e \<Longrightarrow>
   taskLoop other started st evs = Some (Inr st') \<Longrightarrow> \<exists>T'. timeInv T' st'"
proof (induction evs arbitrary: T st)
  case Nil
  then show ?case by auto
next
  case (Cons evt evs)
  from Cons.prems(4) obtain st1 where
    step: "taskStep other started st evt = Some (Inr st1)"
    and rest: "taskLoop other started st1 evs = Some (Inr st')"
    by (auto split: option.splits sum.splits)
  from Cons.prems(3) have "T \<le> ts evt" by simp
  from taskStep_timeInv [OF Cons.prems(1) this step] have inv: "timeInv (ts evt) st1" .
  from Cons.prems(2) have s: "sorted (map ts evs)" "\<forall>e\<in>set evs. ts evt \<le> ts e" by simp_all
  from Cons.IH [OF inv s rest] show ?case .
qed

lemma exSpan_created: "createTasksFromEvents () exSpan = Some (Inr exSpanRaw)"
  by (simp add: exSpan_def exSpanRaw_def ex_simps)

lemma exSpan_sorted: "sorted (map ts exSpan)"
  by (simp add: exSpan_def exStarted_def traceEvent_def)

lemma exNested_sorted: "sorted (map ts exNested)"
  by (simp add: exNested_def exStarted_def traceEvent_def urlEvent_def)

text \<open>
  Claim C2, amended.  Let the events be in the order of their timestamps.  Then in the list
  that \<^verbatim>\<open>_createTasksFromEvents\<close> returns a task that has a parent starts no earlier
  than the parent.  It starts before the end of a parent made of a Complete event, and may
  end after it.  It has ended, and no later than the parent, when the parent is made of a
  Begin event and has an end.
\<close>

theorem child_within_parent_in_order:
  assumes "sorted (map ts traceEvents)"
    and "createTasksFromEvents other traceEvents = Some (Inr tasks)"
    and "j < length tasks" and "parent (tasks ! j) = Some p"
  shows "js_le (startTime (tasks ! p)) (startTime (tasks ! j)) \<and>
         (ph (event (tasks ! p)) = ''X'' \<longrightarrow> js_lt (startTime (tasks ! j)) (endTime (tasks ! p))) \<and>
         (ph (event (tasks ! p)) = ''B'' \<and> isFinite (endTime (tasks ! p)) \<longrightarrow>
            isFinite (endTime (tasks ! j)) \<and> js_le (endTime (tasks ! j)) (endTime (tasks ! p)))"
proof -
  from assms(2) obtain started frameId cur where
    loop: "taskLoop other started ([], None) traceEvents = Some (Inr (tasks, cur))"
    by (auto simp: createTasksFromEvents_def split: sum.splits option.splits prod.splits)
  define T where "T = Min (insert 0 (ts ` set traceEvents))"
  have "\<forall>e\<in>set traceEvents. T \<le> ts e" unfolding T_def by simp
  from taskLoop_timeInv [OF timeInv_empty assms(1) this loop]
  obtain T' where "timeInv T' (tasks, cur)" ..
  from nestedOK_D [OF timeInv_D(8) [OF this] assms(3,4)] show ?thesis
    unfolding nested_def .
qed

theorem child_within_parent_in_order_witness:
  "(sorted (map ts exSpan) \<and> createTasksFromEvents () exSpan = Some (Inr exSpanRaw) \<and>
    parent (exSpanRaw ! 1) = Some 0 \<and> ph (event (exSpanRaw ! 0)) = ''B'' \<and>
    startTime (exSpanRaw ! 0) = Fin 10 \<and> startTime (exSpanRaw ! 1) = Fin 12 \<and>
    endTime (exSpanRaw ! 1) = Fin 15 \<and> endTime (exSpanRaw ! 0) = Fin 20 \<and>
    js_le (startTime (exSpanRaw ! 0)) (startTime (exSpanRaw ! 1)) \<and>
    js_le (endTime (exSpanRaw ! 1)) (endTime (exSpanRaw ! 0))) \<and>
   (sorted (map ts exNested) \<and>
    createTasksFromEvents ''other'' exNested = Some (Inr exNestedRaw) \<and>
    parent (exNestedRaw ! 1) = Some 0 \<and> ph (event (exNestedRaw ! 0)) = ''X'' \<and>
    startTime (exNestedRaw ! 1) = Fin 2000 \<and> endTime (exNestedRaw ! 0) = Fin 5000 \<and>
    js_lt (startTime (exNestedRaw ! 1)) (endTime (exNestedRaw ! 0)))"
  using child_within_parent_in_order [OF exSpan_sorted exSpan_created, of 1 0]
    child_within_parent_in_order [OF exNested_sorted exNested_created, of 1 0]
    exSpan_sorted exSpan_created exNested_sorted exNested_created
  by (simp add: exSpanRaw_def exNestedRaw_def traceEvent_def urlEvent_def)

section \<open>The times of the returned tasks\<close>

text \<open>The numbers of the example: each is the exact result, rounded.\<close>

lemma exRound_1: "rnd (9 / 1000) = 5188146770730811 / 576460752303423488"
  by (rule trans [OF rnd_eqI [where e = "- 7" and m = "5188146770730811"]]) simp_all

lemma exRound_2: "rnd (1 / 125) = 1152921504606847 / 144115188075855872"
  by (rule trans [OF rnd_eqI [where e = "- 7" and m = "4611686018427388"]]) simp_all

lemma exRound_3: "rnd (1 / 1000) = 1152921504606847 / 1152921504606846976"
  by (rule trans [OF rnd_eqI [where e = "- 10" and m = "4611686018427388"]]) simp_all

lemma exRound_4: "rnd (576460752303423 / 576460752303423488) = 576460752303423 / 576460752303423488"
  by (rule trans [OF rnd_eqI [where e = "- 10" and m = "4611686018427384"]]) simp_all

lemma exRound_5:
  "rnd (9223372036854775 / 1152921504606846976) =
     1152921504606847 / 144115188075855872"
  by (rule trans [OF rnd_eqI [where e = "- 7" and m = "4611686018427388"]]) simp_all

lemmas exRound = exRound_1 exRound_2 exRound_3 exRound_4 exRound_5

lemma exRound_created:
  "createTasksFromEvents () exRound =
     Some (Inr [\<lparr>event = traceEvent ''a'' ''X'' 0 (Some 9), startTime = Fin 0, endTime = Fin 9,
                 parent = None, children = [1], group = (), attributableURL = None,
                 duration = NaN, selfTime = NaN\<rparr>,
                \<lparr>event = traceEvent ''b'' ''X'' 8 (Some 1), startTime = Fin 8, endTime = Fin 9,
                 parent = Some 0, children = [], group = (), attributableURL = None,
                 duration = NaN, selfTime = NaN\<rparr>])"
  by (simp add: exRound_def ex_simps)

lemma exRound_result:
  "getMainThreadTasks (Suc (Suc 0)) (\<lambda>n. None) () exRound = Some (Inr exRoundResult)"
  by (simp add: getMainThreadTasks_def exRound_created exRoundResult_def js_sub_def js_or_def
      taskURL_def falsy_def traceEvent_def upt_rec firstTs_def rescaleTask_def fl_eval exRound)

text \<open>
  Claim C1 as stated fails: the second task is returned with the \<open>duration\<close> that \<open>0.001\<close>
  denotes, and its \<open>endTime - startTime\<close> is the lesser number \<open>0.0009999999999999992\<close>.
\<close>

theorem duration_is_not_difference:
  "getMainThreadTasks (Suc (Suc 0)) (\<lambda>n. None) () exRound = Some (Inr exRoundResult) \<and>
   duration (exRoundResult ! 1) = Fin (1152921504606847 / 1152921504606846976) \<and>
   js_sub (endTime (exRoundResult ! 1)) (startTime (exRoundResult ! 1)) =
     Fin (576460752303423 / 576460752303423488) \<and>
   duration (exRoundResult ! 1) \<noteq>
     js_sub (endTime (exRoundResult ! 1)) (startTime (exRoundResult ! 1))"
  by (simp add: exRound_result) (simp add: exRoundResult_def js_sub_def fl_eval exRound)

text \<open>
  Claim C1, amended.  Let \<open>raw\<close> be the nodes that the reconstruction leaves, with the
  times of the events in microseconds.  For every node of the list that
  \<^verbatim>\<open>getMainThreadTasks\<close> returns, \<open>duration\<close> is \<open>endTime - startTime\<close> of the raw node
  divided by \<open>1000\<close>, and \<open>selfTime\<close> is that difference, minus the sum from \<open>0\<close> of the
  differences of the raw children in their order, divided by \<open>1000\<close>, each operation
  rounded; both are finite.  And when, after the metrics passes, some node has a
  \<open>selfTime\<close> or a \<open>duration\<close> that is not finite, the call throws
  \<open>Invalid task timing data\<close>.
\<close>

theorem task_times_from_raw:
  "(getMainThreadTasks fuel tbl other evs = Some (Inr tasks) \<and>
    createTasksFromEvents other evs = Some (Inr raw) \<longrightarrow>
      length tasks = length raw \<and>
      (\<forall>i<length tasks.
         duration (tasks ! i) =
           js_div (js_sub (endTime (raw ! i)) (startTime (raw ! i))) (Fin 1000) \<and>
         selfTime (tasks ! i) =
           js_div (js_sub (js_sub (endTime (raw ! i)) (startTime (raw ! i)))
                     (foldl js_add (Fin 0)
                        (map (\<lambda>c. js_sub (endTime (raw ! c)) (startTime (raw ! c)))
                           (children (raw ! i)))))
             (Fin 1000) \<and>
         isFinite (duration (tasks ! i)) \<and> isFinite (selfTime (tasks ! i)))) \<and>
   (createTasksFromEvents other evs = Some (Inr raw) \<and>
    metricsLoop fuel tbl other raw [0..<length raw] = Some t1 \<and>
    (\<exists>j<length t1. \<not> isFinite (selfTime (t1 ! j)) \<or> \<not> isFinite (duration (t1 ! j))) \<longrightarrow>
      getMainThreadTasks fuel tbl other evs = Some (Inl InvalidTaskTimingData))"
  (is "(?run \<longrightarrow> ?len \<and> (\<forall>i<length tasks. ?P i)) \<and> (?bad \<longrightarrow> ?fails)")
proof (rule conjI)
  show "?run \<longrightarrow> ?len \<and> (\<forall>i<length tasks. ?P i)"
  proof (rule impI)
    assume run: ?run
    from getMainThreadTasks_stages [OF conjunct1 [OF run]] run obtain t1 where
      res: "\<forall>j<length raw. resolved tbl other raw t1 j" and tree: "agree treeOf raw t1"
      and tasks: "tasks = map (rescaleTask (firstTs t1)) t1"
      and r: "rescaleLoop (firstTs t1) t1 = Inr tasks"
      by auto
    have l: "length t1 = length raw" using agree_length [OF tree] .
    with tasks have len: ?len by simp
    have "?P i" if i: "i < length tasks" for i
    proof -
      from i tasks l have i1: "i < length t1" and ir: "i < length raw" by simp_all
      from res ir have tm: "timed raw t1 i" by (simp add: resolved_def)
      from rescaleLoop_finite [OF r] i1 have fs: "isFinite (selfTime (t1 ! i))" by simp
      from tm fs have fd: "isFinite (duration (t1 ! i))"
        by (simp add: timed_def isFinite_js_sub)
      note f = rescaled_fields(8,9) [OF tasks i1]
      have ch: "childSpans raw i =
          foldl js_add (Fin 0)
            (map (\<lambda>c. js_sub (endTime (raw ! c)) (startTime (raw ! c))) (children (raw ! i)))"
        by (simp add: childSpans_def spanOf_def [abs_def])
      from tm f fs fd ch show ?thesis
        by (simp add: timed_def spanOf_def isFinite_div_1000)
    qed
    with len show "?len \<and> (\<forall>i<length tasks. ?P i)" by blast
  qed
next
  show "?bad \<longrightarrow> ?fails"
  proof (rule impI)
    assume h: ?bad
    then have c: "createTasksFromEvents other evs = Some (Inr raw)"
      and m: "metricsLoop fuel tbl other raw [0..<length raw] = Some t1" by simp_all
    from h obtain j where j: "j < length t1"
      and nf: "\<not> isFinite (selfTime (t1 ! j)) \<or> \<not> isFinite (duration (t1 ! j))" by blast
    from createTasksFromEvents_total [of other evs] c have wf: "wfTasks raw" by auto
    from metrics_result [OF wf m] have tree: "agree treeOf raw t1"
      and res: "\<forall>j<length raw. resolved tbl other raw t1 j" by simp_all
    from j agree_length [OF tree] have jr: "j < length raw" by simp
    with res have "timed raw t1 j" by (simp add: resolved_def)
    with nf have "\<not> isFinite (selfTime (t1 ! j))"
      by (auto simp: timed_def isFinite_js_sub)
    moreover from j have "t1 ! j \<in> set t1" by simp
    ultimately have "\<exists>n\<in>set t1. \<not> isFinite (selfTime n)" by blast
    from rescaleLoop_Inl [OF this] c m show ?fails
      by (simp add: getMainThreadTasks_def)
  qed
qed

theorem task_times_from_raw_witness:
  "getMainThreadTasks (Suc (Suc 0)) exTable ''other'' exNested = Some (Inr exNestedResult) \<and>
   createTasksFromEvents ''other'' exNested = Some (Inr exNestedRaw) \<and>
   0 < length exNestedResult \<and>
   duration (exNestedResult ! 0) =
     js_div (js_sub (endTime (exNestedRaw ! 0)) (startTime (exNestedRaw ! 0))) (Fin 1000) \<and>
   selfTime (exNestedResult ! 0) =
     js_div (js_sub (js_sub (endTime (exNestedRaw ! 0)) (startTime (exNestedRaw ! 0)))
               (foldl js_add (Fin 0)
                  (map (\<lambda>c. js_sub (endTime (exNestedRaw ! c)) (startTime (exNestedRaw ! c)))
                     (children (exNestedRaw ! 0)))))
       (Fin 1000) \<and>
   duration (exNestedResult ! 0) = Fin 4 \<and> selfTime (exNestedResult ! 0) = Fin 3 \<and>
   createTasksFromEvents () exOpen = Some (Inr exOpenRaw) \<and>
   metricsLoop (Suc 0) (\<lambda>n. None) () exOpenRaw [0..<length exOpenRaw] = Some exOpenRaw \<and>
   0 < length exOpenRaw \<and> \<not> isFinite (selfTime (exOpenRaw ! 0)) \<and>
   getMainThreadTasks (Suc 0) (\<lambda>n. None) () exOpen = Some (Inl InvalidTaskTimingData)"
proof -
  have l: "0 < length exNestedResult" by (simp add: exNestedResult_def)
  have l': "0 < length exOpenRaw" by (simp add: exOpenRaw_def)
  have n: "\<not> isFinite (selfTime (exOpenRaw ! 0))" by (simp add: exOpenRaw_def)
  from l' n have b: "\<exists>j<length exOpenRaw. \<not> isFinite (selfTime (exOpenRaw ! j)) \<or>
      \<not> isFinite (duration (exOpenRaw ! j))"
    by blast
  from task_times_from_raw [of "Suc (Suc 0)" exTable "''other''" exNested exNestedResult
      exNestedRaw] exNested_result exNested_created l
  have p1: "duration (exNestedResult ! 0) =
      js_div (js_sub (endTime (exNestedRaw ! 0)) (startTime (exNestedRaw ! 0))) (Fin 1000) \<and>
    selfTime (exNestedResult ! 0) =
      js_div (js_sub (js_sub (endTime (exNestedRaw ! 0)) (startTime (exNestedRaw ! 0)))
               (foldl js_add (Fin 0)
                  (map (\<lambda>c. js_sub (endTime (exNestedRaw ! c)) (startTime (exNestedRaw ! c)))
                     (children (exNestedRaw ! 0)))))
        (Fin 1000)"
    by blast
  have s3: "duration (exNestedResult ! 0) = Fin 4" "selfTime (exNestedResult ! 0) = Fin 3"
    by (simp_all add: exNestedResult_def)
  from task_times_from_raw [of "Suc 0" "\<lambda>n. None" "()" exOpen _ exOpenRaw exOpenRaw]
    exOpen_created exOpen_metrics b
  have p2: "getMainThreadTasks (Suc 0) (\<lambda>n. None) () exOpen = Some (Inl InvalidTaskTimingData)"
    by blast
  from p1 s3 p2 exNested_result exNested_created exOpen_created exOpen_metrics l l' n
  show ?thesis by blast
qed

section \<open>The walk over the durations\<close>





























section \<open>Walks that the rounding leads astray\<close>

















































end
